theory Spec2Isabelle
  imports Main "HOL-Library.Word"
begin

unbundle bit_operations_syntax

section \<open>Data model of package pbkdf\<close>

text \<open>
  Go's \<^verbatim>\<open>byte\<close> is an 8-bit word and Go's \<^verbatim>\<open>int\<close> a 64-bit two's complement
  word (the size on every 64-bit platform); \<open>sint\<close> reads its value. A Go \<^verbatim>\<open>string\<close>
  is a sequence of bytes, here a \<open>string\<close> (each \<open>char\<close> is one byte).
\<close>

type_synonym byte = "8 word"
type_synonym go_int = "64 word"

text \<open>
  An \<^verbatim>\<open>error\<close> value is identified by where it comes from and what it says:
  \<open>errors_New msg\<close> is the value of \<^verbatim>\<open>errors.New(msg)\<close>, known by its message (what
  \<^verbatim>\<open>err.Error()\<close> returns, and what the tests compare); \<open>rand_err t\<close> is an error
  returned by the reader of \<^verbatim>\<open>crypto/rand\<close> (\<open>t\<close> tells such errors apart).
\<close>

datatype error = errors_New string | rand_err nat

text \<open>The two messages of \<^verbatim>\<open>pbkdf.go\<close>, under the names the specification gives them.\<close>

definition InvalidArgument :: error where
  "InvalidArgument = errors_New ''salt length must be positive''"

definition InvalidOrCorruptedHash :: error where
  "InvalidOrCorruptedHash = errors_New ''invalid or corrupted hash''"

text \<open>
  \<^verbatim>\<open>HashFunc func() hash.Hash\<close>: a constructor of a hash family, or \<^verbatim>\<open>nil\<close>
  (\<open>None\<close>). \<open>sha256_New\<close> is \<^verbatim>\<open>sha256.New\<close>; \<open>other_New k\<close> stands for any other
  constructor.
\<close>

datatype hash_fn = sha256_New | other_New nat

record Params =
  Iterations :: go_int
  KeyLen :: go_int
  SaltLen :: go_int
  HashFunc :: "hash_fn option"

definition DefaultParams :: Params where
  "DefaultParams = \<lparr>Iterations = 120000, KeyLen = 32, SaltLen = 16, HashFunc = Some sha256_New\<rparr>"

section \<open>The external collaborators\<close>

text \<open>
  The secure random source. \<^verbatim>\<open>rand.Read(b)\<close> either fills the whole of \<open>b\<close> and
  returns a \<^verbatim>\<open>nil\<close> error, or returns an error; it cannot change the length of the
  slice it is given. \<open>Bytes f\<close> is a source that delivers the byte \<open>f i\<close> at position
  \<open>i\<close>, \<open>Fails t\<close> one that cannot deliver.
\<close>

datatype entropy = Bytes "nat \<Rightarrow> byte" | Fails nat

fun rand_Read :: "entropy \<Rightarrow> byte list \<Rightarrow> byte list \<times> error option" where
  "rand_Read (Bytes f) b = (map f [0..<length b], None)"
| "rand_Read (Fails t) b = (b, Some (rand_err t))"

text \<open>
  The memory. \<^verbatim>\<open>make([]byte, n)\<close> returns a slice of \<open>n\<close> zero bytes when the
  runtime can allocate it, and panics (or stops the program) when it cannot; how
  much can be allocated is not decided by the source. An \<open>allocator\<close> says for
  which lengths \<^verbatim>\<open>make\<close> returns.
\<close>

type_synonym allocator = "nat \<Rightarrow> bool"

text \<open>
  The PBKDF2 primitive \<^verbatim>\<open>pbkdf2.Key(password, salt, iter, keyLen, h)\<close> is a parameter
  of the model, of this type: a deterministic function of its five arguments that
  returns the derived key, or \<open>None\<close> when the call panics.
\<close>

type_synonym pbkdf2_Key = "byte list \<Rightarrow> byte list \<Rightarrow> go_int \<Rightarrow> go_int \<Rightarrow> hash_fn \<Rightarrow> byte list option"

section \<open>GenerateSalt\<close>

text \<open>
  \<^verbatim>\<open>func GenerateSalt(length int) ([]byte, error)\<close>. The result is the Go pair
  (the \<^verbatim>\<open>nil\<close> slice is \<open>[]\<close>, the \<^verbatim>\<open>nil\<close> error \<open>None\<close>), or \<open>None\<close> when
  \<^verbatim>\<open>make([]byte, length)\<close> cannot allocate and the call panics.
\<close>

definition GenerateSalt :: "allocator \<Rightarrow> entropy \<Rightarrow> go_int \<Rightarrow> (byte list \<times> error option) option" where
  "GenerateSalt alloc src len =
     (if len \<le>s 0 then Some ([], Some (errors_New ''salt length must be positive''))
      else if \<not> alloc (nat (sint len)) then None
      else
        let salt = replicate (nat (sint len)) 0 in
        (case rand_Read src salt of
           (salt', Some err) \<Rightarrow> Some ([], Some err)
         | (salt', None) \<Rightarrow> Some (salt', None)))"

section \<open>Library functions used by Hash and Verify\<close>

text \<open>
  \<^verbatim>\<open>strings.Split(s, sep)\<close> for a separator of one byte: the pieces of \<open>s\<close>
  between the occurrences of \<open>sep\<close>, one more piece than there are occurrences
  (the empty string gives one empty piece).
\<close>

fun Split :: "string \<Rightarrow> char \<Rightarrow> string list" where
  "Split [] sep = [[]]"
| "Split (c # cs) sep =
     (if c = sep then [] # Split cs sep
      else (case Split cs sep of [] \<Rightarrow> [[c]] | p # ps \<Rightarrow> (c # p) # ps))"

text \<open>
  \<^verbatim>\<open>strconv.Atoi\<close>: an optional sign \<^verbatim>\<open>+\<close> or \<^verbatim>\<open>-\<close>, then one or more decimal
  digits, the value within the range of \<^verbatim>\<open>int\<close>. \<open>None\<close> is a non-nil error
  (syntax or range; Verify does not look at which).
\<close>

definition is_digit :: "char \<Rightarrow> bool" where
  "is_digit c = (48 \<le> (of_char c :: int) \<and> (of_char c :: int) \<le> 57)"

fun digits_val :: "string \<Rightarrow> int \<Rightarrow> int option" where
  "digits_val [] n = Some n"
| "digits_val (c # cs) n =
     (if is_digit c then digits_val cs (n * 10 + (of_char c - 48)) else None)"

definition Atoi :: "string \<Rightarrow> go_int option" where
  "Atoi s =
     (let neg = (case s of [] \<Rightarrow> False | c # _ \<Rightarrow> c = CHR ''-'');
          body = (case s of [] \<Rightarrow> [] | c # cs \<Rightarrow> if c = CHR ''-'' \<or> c = CHR ''+'' then cs else s)
      in if body = [] then None
         else (case digits_val body 0 of
                 None \<Rightarrow> None
               | Some n \<Rightarrow>
                   if neg then (if 2 ^ 63 < n then None else Some (of_int (- n)))
                   else (if 2 ^ 63 \<le> n then None else Some (of_int n))))"

text \<open>The verb \<^verbatim>\<open>%d\<close> of \<^verbatim>\<open>fmt.Sprintf\<close> on an \<^verbatim>\<open>int\<close>: decimal, \<^verbatim>\<open>-\<close> before a negative value.\<close>

function show_digits :: "int \<Rightarrow> string" where
  "show_digits n =
     (if n < 10 then [char_of (48 + n)]
      else show_digits (n div 10) @ [char_of (48 + n mod 10)])"
  by pat_completeness auto
termination
  by (relation "measure nat") auto

declare show_digits.simps [simp del]

definition Sprintf_d :: "go_int \<Rightarrow> string" where
  "Sprintf_d i =
     (if sint i < 0 then CHR ''-'' # show_digits (- sint i) else show_digits (sint i))"

text \<open>
  \<^verbatim>\<open>base64.RawStdEncoding\<close>: the standard alphabet, no padding. \<open>encodeStd\<close> is the
  encoder's table and \<open>decodeMap\<close> the decoder's (\<open>0xff\<close> for a byte outside the
  alphabet).
\<close>

definition encodeStd :: string where
  "encodeStd = ''ABCDEFGHIJKLMNOPQRSTUVWXYZabcdefghijklmnopqrstuvwxyz0123456789+/''"

definition enc :: "64 word \<Rightarrow> char" where
  "enc v = encodeStd ! unat v"

fun position :: "char list \<Rightarrow> char \<Rightarrow> nat \<Rightarrow> nat option" where
  "position [] c i = None"
| "position (x # xs) c i = (if x = c then Some i else position xs c (Suc i))"

definition decodeMap :: "char \<Rightarrow> byte" where
  "decodeMap c = (case position encodeStd c 0 of None \<Rightarrow> 0xff | Some i \<Rightarrow> of_nat i)"

text \<open>
  \<^verbatim>\<open>EncodeToString\<close>: three bytes become four characters; a last group of one
  byte becomes two characters and one of two bytes three, with nothing appended.
\<close>

fun EncodeToString :: "byte list \<Rightarrow> string" where
  "EncodeToString [] = []"
| "EncodeToString [b0] =
     (let val = push_bit 16 (ucast b0) :: 64 word
      in [enc (drop_bit 18 val AND 0x3F), enc (drop_bit 12 val AND 0x3F)])"
| "EncodeToString [b0, b1] =
     (let val = push_bit 16 (ucast b0) OR push_bit 8 (ucast b1) :: 64 word
      in [enc (drop_bit 18 val AND 0x3F), enc (drop_bit 12 val AND 0x3F),
          enc (drop_bit 6 val AND 0x3F)])"
| "EncodeToString (b0 # b1 # b2 # rest) =
     (let val = push_bit 16 (ucast b0) OR push_bit 8 (ucast b1) OR ucast b2 :: 64 word
      in [enc (drop_bit 18 val AND 0x3F), enc (drop_bit 12 val AND 0x3F),
          enc (drop_bit 6 val AND 0x3F), enc (val AND 0x3F)] @ EncodeToString rest)"

text \<open>
  The decoder collects the 6-bit values of up to four characters in \<open>dbuf\<close>
  (unfilled places are 0) and turns them into three bytes.
\<close>

definition assemble :: "byte list \<Rightarrow> byte list" where
  "assemble dbuf =
     (let d = dbuf @ replicate (4 - length dbuf) 0;
          val = push_bit 18 (ucast (d ! 0)) OR push_bit 12 (ucast (d ! 1))
                OR push_bit 6 (ucast (d ! 2)) OR ucast (d ! 3) :: 64 word
      in [ucast (drop_bit 16 val), ucast (drop_bit 8 val), ucast val])"

text \<open>
  \<^verbatim>\<open>DecodeString\<close>, as the loop over the input with the places of \<open>dbuf\<close> filled
  so far: a character of the alphabet fills the next place, and the fourth one
  emits three bytes; \<^verbatim>\<open>\r\<close> and \<^verbatim>\<open>\n\<close> are skipped; any other character is an
  error. At the end of the input no filled place is fine, one is an error, two give
  one byte and three give two (the decoder is not strict about the unused bits).
  \<open>None\<close> is a non-nil error.
\<close>

fun decode_loop :: "byte list \<Rightarrow> string \<Rightarrow> byte list option" where
  "decode_loop dbuf [] =
     (if length dbuf = 0 then Some []
      else if length dbuf = 1 then None
      else Some (take (length dbuf - 1) (assemble dbuf)))"
| "decode_loop dbuf (c # cs) =
     (let out = decodeMap c in
      if out \<noteq> 0xff then
        (if length dbuf = 3 then
           (case decode_loop [] cs of
              None \<Rightarrow> None
            | Some r \<Rightarrow> Some (assemble (dbuf @ [out]) @ r))
         else decode_loop (dbuf @ [out]) cs)
      else if c = CHR 0x0A \<or> c = CHR 0x0D then decode_loop dbuf cs
      else None)"

definition DecodeString :: "string \<Rightarrow> byte list option" where
  "DecodeString s = decode_loop [] s"

text \<open>
  \<^verbatim>\<open>subtle.ConstantTimeByteEq\<close> and \<^verbatim>\<open>subtle.ConstantTimeCompare\<close>: after the
  check of the lengths, the OR of the XORs of all pairs of bytes is compared with 0.
\<close>

definition ConstantTimeByteEq :: "byte \<Rightarrow> byte \<Rightarrow> go_int" where
  "ConstantTimeByteEq x y = ucast (drop_bit 31 ((ucast (x XOR y) :: 32 word) - 1))"

definition ConstantTimeCompare :: "byte list \<Rightarrow> byte list \<Rightarrow> go_int" where
  "ConstantTimeCompare x y =
     (if length x \<noteq> length y then 0
      else ConstantTimeByteEq (fold (\<lambda>(a, b) v. v OR (a XOR b)) (zip x y) 0) 0)"

section \<open>Hash\<close>

text \<open>The first four statements of \<^verbatim>\<open>Params.Hash\<close>: defaults for zero values.\<close>

definition applyDefaults :: "Params \<Rightarrow> Params" where
  "applyDefaults p0 =
     (let p1 = (if Iterations p0 = 0 then p0\<lparr>Iterations := Iterations DefaultParams\<rparr> else p0);
          p2 = (if KeyLen p1 = 0 then p1\<lparr>KeyLen := KeyLen DefaultParams\<rparr> else p1);
          p3 = (if SaltLen p2 = 0 then p2\<lparr>SaltLen := SaltLen DefaultParams\<rparr> else p2)
      in (if HashFunc p3 = None then p3\<lparr>HashFunc := HashFunc DefaultParams\<rparr> else p3))"

text \<open>\<^verbatim>\<open>fmt.Sprintf("$pbkdf2-sha256$i=%d,l=%d$%s$%s", ...)\<close>.\<close>

definition Sprintf_hash :: "go_int \<Rightarrow> go_int \<Rightarrow> string \<Rightarrow> string \<Rightarrow> string" where
  "Sprintf_hash i l b64Salt b64Hash =
     ''$pbkdf2-sha256$i='' @ Sprintf_d i @ '',l='' @ Sprintf_d l @ ''$'' @ b64Salt @ ''$'' @ b64Hash"

text \<open>The third of the five fields that this format string writes.\<close>

definition field2 :: "go_int \<Rightarrow> go_int \<Rightarrow> string" where
  "field2 i l = ''i='' @ Sprintf_d i @ '',l='' @ Sprintf_d l"

text \<open>
  \<^verbatim>\<open>func (p Params) Hash(password []byte) (string, error)\<close>, with the primitive
  \<open>Key\<close>, the allocator and the random source as parameters. The result is the Go
  pair, or \<open>None\<close> when the call panics (in \<open>GenerateSalt\<close>, in the primitive, or
  by calling a \<^verbatim>\<open>nil\<close> function).
\<close>

definition Params_Hash :: "pbkdf2_Key \<Rightarrow> allocator \<Rightarrow> entropy \<Rightarrow> Params \<Rightarrow> byte list \<Rightarrow> (string \<times> error option) option" where
  "Params_Hash Key alloc src p0 password =
     (let p = applyDefaults p0 in
      case GenerateSalt alloc src (SaltLen p) of
        None \<Rightarrow> None
      | Some (salt, Some err) \<Rightarrow> Some ([], Some err)
      | Some (salt, None) \<Rightarrow>
          (case HashFunc p of
             None \<Rightarrow> None
           | Some h \<Rightarrow>
               (case Key password salt (Iterations p) (KeyLen p) h of
                  None \<Rightarrow> None
                | Some dk \<Rightarrow>
                    Some (Sprintf_hash (Iterations p) (KeyLen p)
                            (EncodeToString salt) (EncodeToString dk), None))))"

text \<open>\<^verbatim>\<open>func Hash(password []byte) (string, error)\<close>.\<close>

definition Hash :: "pbkdf2_Key \<Rightarrow> allocator \<Rightarrow> entropy \<Rightarrow> byte list \<Rightarrow> (string \<times> error option) option" where
  "Hash Key alloc src password = Params_Hash Key alloc src DefaultParams password"

section \<open>Verify\<close>

text \<open>
  The loop of \<^verbatim>\<open>Verify\<close> over the entries of field 2, with the values of
  \<^verbatim>\<open>iterations\<close> and \<^verbatim>\<open>keyLen\<close> so far; \<open>Inl\<close> is the error the loop returns.
\<close>

fun parse_params :: "string list \<Rightarrow> go_int \<Rightarrow> go_int \<Rightarrow> error + (go_int \<times> go_int)" where
  "parse_params [] iterations keyLen = Inr (iterations, keyLen)"
| "parse_params (param # rest) iterations keyLen =
     (let kv = Split param CHR ''='' in
      if length kv \<noteq> 2 then parse_params rest iterations keyLen
      else if kv ! 0 = ''i'' then
        (case Atoi (kv ! 1) of
           None \<Rightarrow> Inl (errors_New ''invalid or corrupted hash'')
         | Some v \<Rightarrow> parse_params rest v keyLen)
      else if kv ! 0 = ''l'' then
        (case Atoi (kv ! 1) of
           None \<Rightarrow> Inl (errors_New ''invalid or corrupted hash'')
         | Some v \<Rightarrow> parse_params rest iterations v)
      else parse_params rest iterations keyLen)"

text \<open>
  \<^verbatim>\<open>func Verify(password []byte, encodedHash string) (bool, error)\<close>: the Go pair,
  or \<open>None\<close> when the primitive panics.
\<close>

definition Verify :: "pbkdf2_Key \<Rightarrow> byte list \<Rightarrow> string \<Rightarrow> (bool \<times> error option) option" where
  "Verify Key password encodedHash =
     (let parts = Split encodedHash CHR ''$'' in
      if length parts \<noteq> 5 then Some (False, Some (errors_New ''invalid or corrupted hash''))
      else if parts ! 1 \<noteq> ''pbkdf2-sha256'' then
        Some (False, Some (errors_New ''invalid or corrupted hash''))
      else
        (case parse_params (Split (parts ! 2) CHR '','') 0 0 of
           Inl err \<Rightarrow> Some (False, Some err)
         | Inr (iterations, keyLen) \<Rightarrow>
             if iterations = 0 \<or> keyLen = 0 then
               Some (False, Some (errors_New ''invalid or corrupted hash''))
             else
               (case DecodeString (parts ! 3) of
                  None \<Rightarrow> Some (False, Some (errors_New ''invalid or corrupted hash''))
                | Some salt \<Rightarrow>
                    (case DecodeString (parts ! 4) of
                       None \<Rightarrow> Some (False, Some (errors_New ''invalid or corrupted hash''))
                     | Some decodedHash \<Rightarrow>
                         (case Key password salt iterations keyLen sha256_New of
                            None \<Rightarrow> None
                          | Some dk \<Rightarrow>
                              if ConstantTimeCompare dk decodedHash = 1 then Some (True, None)
                              else Some (False, None))))))"

section \<open>The failure causes of Verify, as the specification lists them\<close>

text \<open>
  The values of the entries \<^verbatim>\<open>key=value\<close> of field 2 under a given key, in their
  order: field 2 is cut at the commas, and an entry counts when \<^verbatim>\<open>=\<close> cuts it
  into exactly the key and a value.
\<close>

definition entry_values :: "string \<Rightarrow> string list \<Rightarrow> string list" where
  "entry_values key params =
     map (\<lambda>kv. kv ! 1)
       (filter (\<lambda>kv. length kv = 2 \<and> kv ! 0 = key) (map (\<lambda>param. Split param CHR ''='') params))"

definition values_of :: "string \<Rightarrow> string \<Rightarrow> string list" where
  "values_of key f2 = entry_values key (Split f2 CHR '','')"

text \<open>
  An encoded hash is malformed when the number of fields is not five, the algorithm
  tag is wrong, \<^verbatim>\<open>i\<close> or \<^verbatim>\<open>l\<close> is missing, a value of \<^verbatim>\<open>i\<close> or \<^verbatim>\<open>l\<close> is not a
  number that \<open>Atoi\<close> reads, the value of \<^verbatim>\<open>i\<close> or \<^verbatim>\<open>l\<close> (the last one given) is
  zero, or the salt or the key is not base64 that \<open>DecodeString\<close> reads. This
  predicate is written from the specification and compared with \<open>Verify\<close> below.
\<close>

definition malformed :: "string \<Rightarrow> bool" where
  "malformed s =
     (let parts = Split s CHR ''$'' in
      length parts \<noteq> 5
      \<or> parts ! 1 \<noteq> ''pbkdf2-sha256''
      \<or> values_of ''i'' (parts ! 2) = [] \<or> values_of ''l'' (parts ! 2) = []
      \<or> (\<exists>v \<in> set (values_of ''i'' (parts ! 2)) \<union> set (values_of ''l'' (parts ! 2)). Atoi v = None)
      \<or> Atoi (last (values_of ''i'' (parts ! 2))) = Some 0
      \<or> Atoi (last (values_of ''l'' (parts ! 2))) = Some 0
      \<or> DecodeString (parts ! 3) = None
      \<or> DecodeString (parts ! 4) = None)"

section \<open>A sample allocator and a sample primitive\<close>

text \<open>An allocator with a limit of \<open>2 ^ 48\<close> bytes, to evaluate at concrete inputs.\<close>

definition sample_alloc :: allocator where
  "sample_alloc n = (int n \<le> 2 ^ 48)"

text \<open>
  A stand-in for the PBKDF2 primitive, used only to evaluate Hash and Verify at
  concrete inputs: \<open>keyLen\<close> bytes computed from all five arguments, and a panic for
  a negative \<open>keyLen\<close>. The theorems below hold for every primitive.
\<close>

definition sample_Key :: pbkdf2_Key where
  "sample_Key password salt iter keyLen h =
     (if keyLen <s 0 then None
      else Some (map (\<lambda>i. of_nat i + fold (+) (password @ salt) (ucast iter)
                           + (case h of sha256_New \<Rightarrow> 0 | other_New k \<Rightarrow> of_nat k + 1))
                  [0..<nat (sint keyLen)]))"

section \<open>Splitting a string\<close>

lemma Split_not_Nil: "Split s sep \<noteq> []"
  by (induction s) (auto split: list.splits)

lemma Split_no_sep: "sep \<notin> set s \<Longrightarrow> Split s sep = [s]"
  by (induction s) auto

lemma Split_append_sep: "sep \<notin> set a \<Longrightarrow> Split (a @ sep # rest) sep = a # Split rest sep"
  by (induction a) auto

lemma Split5:
  "length (Split s c) = 5 \<Longrightarrow>
     Split s c = [Split s c ! 0, Split s c ! 1, Split s c ! 2, Split s c ! 3, Split s c ! 4]"
proof -
  assume "length (Split s c) = 5"
  then obtain a b d e f where "Split s c = [a, b, d, e, f]"
    by (auto simp: numeral_eq_Suc length_Suc_conv)
  then show ?thesis by simp
qed

section \<open>Printing and reading a decimal number\<close>

lemma of_char_digit: "0 \<le> d \<Longrightarrow> d < 10 \<Longrightarrow> of_char (char_of (48 + d :: int)) = (48 + d :: int)"
  by simp

lemma is_digit_char_of: "0 \<le> d \<Longrightarrow> d < 10 \<Longrightarrow> is_digit (char_of (48 + d :: int))"
  by (simp add: is_digit_def)

lemma digits_val_append:
  "digits_val (xs @ ys) a = (case digits_val xs a of None \<Rightarrow> None | Some b \<Rightarrow> digits_val ys b)"
  by (induction xs arbitrary: a) auto

lemma show_digits_digits: "0 \<le> n \<Longrightarrow> c \<in> set (show_digits n) \<Longrightarrow> is_digit c"
proof (induction n rule: show_digits.induct)
  case (1 n)
  show ?case
  proof (cases "n < 10")
    case True
    with 1 show ?thesis by (simp add: show_digits.simps [of n] is_digit_char_of)
  next
    case False
    have "is_digit (char_of (48 + n mod 10))" by (rule is_digit_char_of) simp_all
    with False 1 show ?thesis
      by (auto simp: show_digits.simps [of n])
  qed
qed

lemma show_digits_not_Nil: "show_digits n \<noteq> []"
  by (subst show_digits.simps) simp

lemma digits_val_show_digits: "0 \<le> n \<Longrightarrow> digits_val (show_digits n) 0 = Some n"
proof (induction n rule: show_digits.induct)
  case (1 n)
  show ?case
  proof (cases "n < 10")
    case True
    with 1 show ?thesis by (simp add: show_digits.simps [of n] is_digit_char_of)
  next
    case False
    have d: "is_digit (char_of (48 + n mod 10))" by (rule is_digit_char_of) simp_all
    have v: "of_char (char_of (48 + n mod 10)) = 48 + n mod 10" by (rule of_char_digit) simp_all
    from False 1 have "digits_val (show_digits (n div 10)) 0 = Some (n div 10)" by simp
    with False d v show ?thesis
      by (simp add: show_digits.simps [of n] digits_val_append)
  qed
qed

lemma is_digit_simps:
  "\<not> is_digit CHR ''-''" "\<not> is_digit CHR ''+''" "\<not> is_digit CHR ''$''"
  "\<not> is_digit CHR '',''" "\<not> is_digit CHR ''=''"
  by (simp_all add: is_digit_def)

text \<open>What \<^verbatim>\<open>%d\<close> prints, \<open>Atoi\<close> reads back, for every value of an \<^verbatim>\<open>int\<close>.\<close>

lemma Atoi_Sprintf_d: "Atoi (Sprintf_d w) = Some w"
proof (cases "sint w < 0")
  case True
  have r: "- sint w \<le> 2 ^ 63" using sint_ge [of w] by simp
  from True have "digits_val (show_digits (- sint w)) 0 = Some (- sint w)"
    by (intro digits_val_show_digits) simp
  with True r show ?thesis
    by (simp add: Atoi_def Sprintf_d_def show_digits_not_Nil)
next
  case False
  have r: "sint w < 2 ^ 63" using sint_lt [of w] by simp
  from False have dv: "digits_val (show_digits (sint w)) 0 = Some (sint w)"
    by (intro digits_val_show_digits) simp
  obtain c cs where s: "show_digits (sint w) = c # cs"
    using show_digits_not_Nil [of "sint w"] by (cases "show_digits (sint w)") auto
  from False have "is_digit c" using show_digits_digits [of "sint w" c] s by simp
  then have "c \<noteq> CHR ''-''" "c \<noteq> CHR ''+''" using is_digit_simps by auto
  with False r dv s show ?thesis
    by (simp add: Atoi_def Sprintf_d_def)
qed

lemma Sprintf_d_chars:
  "c \<in> set (Sprintf_d w) \<Longrightarrow> c = CHR ''-'' \<or> is_digit c"
  using show_digits_digits [of "sint w" c] show_digits_digits [of "- sint w" c]
  by (auto simp: Sprintf_d_def split: if_splits)

lemma Sprintf_d_no_sep:
  "CHR ''$'' \<notin> set (Sprintf_d w)" "CHR '','' \<notin> set (Sprintf_d w)" "CHR ''='' \<notin> set (Sprintf_d w)"
  using Sprintf_d_chars [of _ w] is_digit_simps by auto

section \<open>Base64 without padding\<close>

lemma length_encodeStd: "length encodeStd = 64"
  by (simp add: encodeStd_def)

lemma decodeMap_table: "map decodeMap encodeStd = map of_nat [0..<64]"
  by code_simp

lemma decodeMap_nth: "i < 64 \<Longrightarrow> decodeMap (encodeStd ! i) = of_nat i"
proof -
  assume i: "i < 64"
  then have "decodeMap (encodeStd ! i) = map decodeMap encodeStd ! i"
    by (simp add: length_encodeStd)
  also have "\<dots> = of_nat i" using i by (simp only: decodeMap_table) simp
  finally show ?thesis .
qed

lemma sextet_less: "unat ((v :: 64 word) AND 0x3F) < 64"
proof -
  have "v AND 0x3F \<le> 0x3F" by (rule word_and_le1)
  then show ?thesis by (simp add: word_le_nat_alt)
qed

lemma decodeMap_enc: "decodeMap (enc (v AND 0x3F)) = ucast (v AND 0x3F)"
  using decodeMap_nth [OF sextet_less [of v]] by (simp add: enc_def)

lemma decodeMap_enc_valid: "decodeMap (enc (v AND 0x3F)) \<noteq> 0xff"
proof
  assume "decodeMap (enc (v AND 0x3F)) = 0xff"
  then have "(of_nat (unat (v AND 0x3F)) :: byte) = 0xff"
    using decodeMap_nth [OF sextet_less [of v]] by (simp add: enc_def)
  then have "unat (of_nat (unat (v AND 0x3F)) :: byte) = 255" by simp
  then show False using sextet_less [of v] by (simp only: unat_of_nat) simp
qed

lemma enc_in_alphabet: "enc (v AND 0x3F) \<in> set encodeStd"
  unfolding enc_def using sextet_less [of v] by (simp add: length_encodeStd)

lemma Suc_Suc_diff2: "\<not> n < 2 \<Longrightarrow> Suc (Suc (n - 2)) = n" "2 \<le> n \<Longrightarrow> Suc (Suc (n - 2)) = n"
  by simp_all

text \<open>The four 6-bit values of three bytes give the three bytes back; so do the
  three values of two bytes and the two values of one byte.\<close>

lemma assemble4:
  fixes b0 b1 b2 :: byte
  defines "val \<equiv> push_bit 16 (ucast b0) OR push_bit 8 (ucast b1) OR ucast b2 :: 64 word"
  shows "assemble [ucast (drop_bit 18 val AND 0x3F), ucast (drop_bit 12 val AND 0x3F),
                   ucast (drop_bit 6 val AND 0x3F), ucast (val AND 0x3F)] = [b0, b1, b2]"
proof -
  have m: "(0x3F :: 64 word) = mask 6" by (simp add: mask_eq_exp_minus_1)
  show ?thesis
  unfolding assemble_def val_def m
  apply (simp add: Let_def)
  apply (intro conjI bit_word_eqI)
  apply (auto simp add: bit_simps Suc_Suc_diff2 dest: bit_imp_le_length)
  done
qed

lemma assemble3:
  fixes b0 b1 :: byte
  defines "val \<equiv> push_bit 16 (ucast b0) OR push_bit 8 (ucast b1) :: 64 word"
  shows "take 2 (assemble [ucast (drop_bit 18 val AND 0x3F), ucast (drop_bit 12 val AND 0x3F),
                   ucast (drop_bit 6 val AND 0x3F)]) = [b0, b1]"
proof -
  have m: "(0x3F :: 64 word) = mask 6" by (simp add: mask_eq_exp_minus_1)
  show ?thesis
  unfolding assemble_def val_def m
  apply (simp add: Let_def)
  apply (intro conjI bit_word_eqI)
  apply (auto simp add: bit_simps Suc_Suc_diff2 dest: bit_imp_le_length)
  done
qed

lemma assemble2:
  fixes b0 :: byte
  defines "val \<equiv> push_bit 16 (ucast b0) :: 64 word"
  shows "take 1 (assemble [ucast (drop_bit 18 val AND 0x3F), ucast (drop_bit 12 val AND 0x3F)]) = [b0]"
proof -
  have m: "(0x3F :: 64 word) = mask 6" by (simp add: mask_eq_exp_minus_1)
  show ?thesis
  unfolding assemble_def val_def m
  apply (simp add: Let_def)
  apply (intro conjI bit_word_eqI)
  apply (auto simp add: bit_simps Suc_Suc_diff2 dest: bit_imp_le_length)
  done
qed

lemma decode_loop_enc:
  "decode_loop dbuf (enc (v AND 0x3F) # cs) =
     (if length dbuf = 3 then
        (case decode_loop [] cs of
           None \<Rightarrow> None
         | Some r \<Rightarrow> Some (assemble (dbuf @ [ucast (v AND 0x3F)]) @ r))
      else decode_loop (dbuf @ [ucast (v AND 0x3F)]) cs)"
  using decodeMap_enc_valid [of v] by (simp add: Let_def decodeMap_enc)

lemma decode_encode: "decode_loop [] (EncodeToString bs) = Some bs"
proof (induction bs rule: EncodeToString.induct)
  case 1
  show ?case by simp
next
  case (2 b0)
  show ?case
    using assemble2 [of b0]
    by (simp add: Let_def decode_loop_enc del: decode_loop.simps(2))
next
  case (3 b0 b1)
  show ?case
    using assemble3 [of b0 b1]
    by (simp add: Let_def decode_loop_enc numeral_2_eq_2 del: decode_loop.simps(2))
next
  case (4 b0 b1 b2 rest)
  show ?case
    using assemble4 [of b0 b1 b2] 4
    by (simp add: Let_def decode_loop_enc del: decode_loop.simps(2))
qed

lemma EncodeToString_alphabet: "set (EncodeToString bs) \<subseteq> set encodeStd"
  by (induction bs rule: EncodeToString.induct) (simp_all add: Let_def enc_in_alphabet)

lemma encodeStd_no_sep: "CHR ''$'' \<notin> set encodeStd" "CHR ''='' \<notin> set encodeStd"
  by (simp_all add: encodeStd_def)

section \<open>The comparison of two keys\<close>

lemma xor_zero_iff: "a XOR b = 0 \<longleftrightarrow> a = (b :: byte)"
  by (metis bit.xor_left_self xor.right_neutral)

lemma fold_or_xor_zero:
  "fold (\<lambda>(a, b) v. v OR (a XOR b)) ps (v0 :: byte) = 0 \<longleftrightarrow> v0 = 0 \<and> (\<forall>(a, b) \<in> set ps. a = b)"
  by (induction ps arbitrary: v0) (auto simp: or_eq_0_iff xor_zero_iff)

lemma ByteEq_zero: "ConstantTimeByteEq 0 0 = 1"
  by (simp add: ConstantTimeByteEq_def)

lemma ByteEq_nonzero:
  assumes "v \<noteq> 0"
  shows "ConstantTimeByteEq v 0 = 0"
proof -
  define x :: "32 word" where "x = ucast v"
  have lt: "unat v < 256" using unsigned_less [of v, where 'a = nat] by simp
  have ux: "unat x = unat v"
    using lt by (simp add: x_def unsigned_ucast_eq take_bit_nat_eq_self)
  from assms have "unat v \<noteq> 0" by (simp add: unsigned_eq_0_iff)
  with ux have "x \<noteq> 0" by auto
  then have "unat (x - 1) = unat x - 1" by (rule unat_minus_one)
  with ux lt have "unat (x - 1) < 2 ^ 31" by simp
  then have "unat (drop_bit 31 (x - 1)) = 0"
    by (subst unat_drop_bit_eq) (simp add: drop_bit_eq_div)
  then have "drop_bit 31 (x - 1) = 0" by (simp add: unsigned_eq_0_iff)
  then show ?thesis by (simp add: ConstantTimeByteEq_def x_def)
qed

text \<open>\<open>ConstantTimeCompare\<close> answers 1 exactly for two equal byte sequences.\<close>

lemma ConstantTimeCompare_iff: "ConstantTimeCompare x y = 1 \<longleftrightarrow> x = y"
proof (cases "length x = length y")
  case False
  then show ?thesis by (auto simp: ConstantTimeCompare_def)
next
  case True
  let ?v = "fold (\<lambda>(a, b) v. v OR (a XOR b)) (zip x y) (0 :: byte)"
  have "?v = 0 \<longleftrightarrow> x = y"
    using True by (simp add: fold_or_xor_zero list_eq_iff_zip_eq)
  moreover have "ConstantTimeByteEq ?v 0 = 1 \<longleftrightarrow> ?v = 0"
    using ByteEq_zero ByteEq_nonzero [of ?v] by (cases "?v = 0") auto
  ultimately show ?thesis using True by (simp add: ConstantTimeCompare_def)
qed

section \<open>What Hash returns\<close>

lemma applyDefaults_fields:
  "Iterations (applyDefaults p) = (if Iterations p = 0 then 120000 else Iterations p)"
  "KeyLen (applyDefaults p) = (if KeyLen p = 0 then 32 else KeyLen p)"
  "SaltLen (applyDefaults p) = (if SaltLen p = 0 then 16 else SaltLen p)"
  "HashFunc (applyDefaults p) = (case HashFunc p of None \<Rightarrow> Some sha256_New | Some h \<Rightarrow> Some h)"
  by (simp_all add: applyDefaults_def DefaultParams_def Let_def split: option.splits)

lemma applyDefaults_nonzero:
  "Iterations (applyDefaults p) \<noteq> 0" "KeyLen (applyDefaults p) \<noteq> 0"
  by (simp_all add: applyDefaults_fields)

lemma GenerateSalt_cases:
  "GenerateSalt alloc src len = Some (salt, None) \<Longrightarrow>
     \<exists>f. src = Bytes f \<and> 0 < sint len \<and> alloc (nat (sint len))
         \<and> salt = map f [0..<nat (sint len)]"
  by (cases src) (auto simp: GenerateSalt_def word_sle_eq Let_def split: if_splits)

lemma Params_Hash_success:
  assumes "Params_Hash Key alloc src p password = Some (s, None)"
  obtains f h dk where
    "src = Bytes f" "0 < sint (SaltLen (applyDefaults p))"
    "HashFunc (applyDefaults p) = Some h"
    "Key password (map f [0..<nat (sint (SaltLen (applyDefaults p)))])
        (Iterations (applyDefaults p)) (KeyLen (applyDefaults p)) h = Some dk"
    "s = Sprintf_hash (Iterations (applyDefaults p)) (KeyLen (applyDefaults p))
           (EncodeToString (map f [0..<nat (sint (SaltLen (applyDefaults p)))])) (EncodeToString dk)"
proof -
  from assms obtain r where "GenerateSalt alloc src (SaltLen (applyDefaults p)) = Some r"
    by (cases "GenerateSalt alloc src (SaltLen (applyDefaults p))")
       (auto simp: Params_Hash_def Let_def)
  then obtain salt e where g: "GenerateSalt alloc src (SaltLen (applyDefaults p)) = Some (salt, e)"
    by (cases r) auto
  with assms have e: "e = None"
    by (cases e) (auto simp: Params_Hash_def Let_def)
  from GenerateSalt_cases [OF g [unfolded e]] obtain f where
    f: "src = Bytes f" "0 < sint (SaltLen (applyDefaults p))"
       "salt = map f [0..<nat (sint (SaltLen (applyDefaults p)))]" by blast
  from assms g e obtain h where h: "HashFunc (applyDefaults p) = Some h"
    by (cases "HashFunc (applyDefaults p)") (auto simp: Params_Hash_def Let_def)
  from assms g e h obtain dk where
    dk: "Key password salt (Iterations (applyDefaults p)) (KeyLen (applyDefaults p)) h = Some dk"
    by (cases "Key password salt (Iterations (applyDefaults p)) (KeyLen (applyDefaults p)) h")
       (auto simp: Params_Hash_def Let_def)
  from assms g e h dk have
    "s = Sprintf_hash (Iterations (applyDefaults p)) (KeyLen (applyDefaults p))
           (EncodeToString salt) (EncodeToString dk)"
    by (simp add: Params_Hash_def Let_def)
  with f h dk show thesis using that by simp
qed

lemma Split_Sprintf_hash:
  assumes a: "CHR ''$'' \<notin> set a" and b: "CHR ''$'' \<notin> set b"
  shows "Split (Sprintf_hash i l a b) CHR ''$'' = [[], ''pbkdf2-sha256'', field2 i l, a, b]"
proof -
  define F where "F = field2 i l"
  define T where "T = ''pbkdf2-sha256''"
  have F: "CHR ''$'' \<notin> set F" by (simp add: F_def field2_def Sprintf_d_no_sep)
  have T: "CHR ''$'' \<notin> set T" by (simp add: T_def)
  have N: "CHR ''$'' \<notin> set ([] :: string)" by simp
  have "Sprintf_hash i l a b = [] @ CHR ''$'' # T @ CHR ''$'' # F @ CHR ''$'' # a @ CHR ''$'' # b"
    by (simp add: Sprintf_hash_def F_def T_def field2_def)
  then have "Split (Sprintf_hash i l a b) CHR ''$'' = [[], T, F, a, b]"
    by (simp only: Split_append_sep [OF N] Split_append_sep [OF T] Split_append_sep [OF F]
          Split_append_sep [OF a] Split_no_sep [OF b])
  then show ?thesis by (simp only: F_def T_def)
qed

lemma Split_field2:
  "Split (field2 i l) CHR '','' = [''i='' @ Sprintf_d i, ''l='' @ Sprintf_d l]"
proof -
  define e1 where "e1 = ''i='' @ Sprintf_d i"
  define e2 where "e2 = ''l='' @ Sprintf_d l"
  have 1: "CHR '','' \<notin> set e1" by (simp add: e1_def Sprintf_d_no_sep)
  have 2: "CHR '','' \<notin> set e2" by (simp add: e2_def Sprintf_d_no_sep)
  have "field2 i l = e1 @ CHR '','' # e2" by (simp add: field2_def e1_def e2_def)
  then have "Split (field2 i l) CHR '','' = [e1, e2]"
    by (simp only: Split_append_sep [OF 1] Split_no_sep [OF 2])
  then show ?thesis by (simp only: e1_def e2_def)
qed

lemma Split_entry:
  assumes "k \<noteq> CHR ''=''"
  shows "Split ([k, CHR ''=''] @ Sprintf_d v) CHR ''='' = [[k], Sprintf_d v]"
proof -
  have 1: "CHR ''='' \<notin> set [k]" using assms by simp
  have "[k, CHR ''=''] @ Sprintf_d v = [k] @ CHR ''='' # Sprintf_d v" by simp
  then show ?thesis
    by (simp only: Split_append_sep [OF 1] Split_no_sep [OF Sprintf_d_no_sep(3)])
qed

lemma parse_params_field2:
  "parse_params [''i='' @ Sprintf_d i, ''l='' @ Sprintf_d l] a b = Inr (i, l)"
proof -
  define e1 where "e1 = ''i='' @ Sprintf_d i"
  define e2 where "e2 = ''l='' @ Sprintf_d l"
  have 1: "Split e1 CHR ''='' = [''i'', Sprintf_d i]"
    unfolding e1_def using Split_entry [of "CHR ''i''" i] by simp
  have 2: "Split e2 CHR ''='' = [''l'', Sprintf_d l]"
    unfolding e2_def using Split_entry [of "CHR ''l''" l] by simp
  have "parse_params [e1, e2] a b = Inr (i, l)"
    by (simp add: 1 2 Atoi_Sprintf_d)
  then show ?thesis by (simp only: e1_def e2_def)
qed

lemma field2_defaults: "field2 120000 32 = ''i=120000,l=32''" "field2 1000 32 = ''i=1000,l=32''"
  by code_simp+

lemma Hash_fields:
  assumes "Params_Hash Key alloc src p password = Some (s, None)"
  obtains salt dk h where
    "int (length salt) = sint (SaltLen (applyDefaults p))"
    "HashFunc (applyDefaults p) = Some h"
    "Key password salt (Iterations (applyDefaults p)) (KeyLen (applyDefaults p)) h = Some dk"
    "s = Sprintf_hash (Iterations (applyDefaults p)) (KeyLen (applyDefaults p))
           (EncodeToString salt) (EncodeToString dk)"
    "Split s CHR ''$'' =
       [[], ''pbkdf2-sha256'', field2 (Iterations (applyDefaults p)) (KeyLen (applyDefaults p)),
        EncodeToString salt, EncodeToString dk]"
proof -
  let ?p = "applyDefaults p"
  from assms obtain f h dk where
    pos: "0 < sint (SaltLen ?p)"
    and h: "HashFunc ?p = Some h"
    and dk: "Key password (map f [0..<nat (sint (SaltLen ?p))]) (Iterations ?p) (KeyLen ?p) h = Some dk"
    and s: "s = Sprintf_hash (Iterations ?p) (KeyLen ?p)
                 (EncodeToString (map f [0..<nat (sint (SaltLen ?p))])) (EncodeToString dk)"
    by (rule Params_Hash_success)
  let ?salt = "map f [0..<nat (sint (SaltLen ?p))]"
  have a: "CHR ''$'' \<notin> set (EncodeToString ?salt)" "CHR ''$'' \<notin> set (EncodeToString dk)"
    using EncodeToString_alphabet encodeStd_no_sep by blast+
  have "int (length ?salt) = sint (SaltLen ?p)" using pos by simp
  with h dk s Split_Sprintf_hash [OF a] show thesis using that by blast
qed

section \<open>What Verify does with an encoded hash\<close>

lemma entry_values_Cons:
  "entry_values key (p # ps) =
     (if length (Split p CHR ''='') = 2 \<and> Split p CHR ''='' ! 0 = key
      then Split p CHR ''='' ! 1 # entry_values key ps else entry_values key ps)"
  by (simp add: entry_values_def)

lemma entry_values_Nil: "entry_values key [] = []"
  by (simp add: entry_values_def)

text \<open>The loop over field 2 fails exactly when a value of \<^verbatim>\<open>i\<close> or \<^verbatim>\<open>l\<close> is not a
  number; otherwise each of the two variables holds the last value given for it, or
  its initial value when none was given.\<close>

lemma parse_params_error:
  "parse_params ps it kl = Inl e \<Longrightarrow>
     e = errors_New ''invalid or corrupted hash''
     \<and> (\<exists>v \<in> set (entry_values ''i'' ps) \<union> set (entry_values ''l'' ps). Atoi v = None)"
proof (induction ps arbitrary: it kl)
  case Nil
  then show ?case by simp
next
  case (Cons p ps)
  show ?case
  proof (cases "length (Split p CHR ''='') = 2")
    case False
    with Cons show ?thesis by (simp add: entry_values_Cons)
  next
    case len: True
    show ?thesis
    proof (cases "Split p CHR ''='' ! 0 = ''i''")
      case True
      with len Cons show ?thesis
        by (cases "Atoi (Split p CHR ''='' ! 1)") (auto simp: entry_values_Cons)
    next
      case ni: False
      show ?thesis
      proof (cases "Split p CHR ''='' ! 0 = ''l''")
        case True
        with len ni Cons show ?thesis
          by (cases "Atoi (Split p CHR ''='' ! 1)") (auto simp: entry_values_Cons)
      next
        case False
        with len ni Cons show ?thesis by (simp add: entry_values_Cons)
      qed
    qed
  qed
qed

lemma parse_params_ok:
  "parse_params ps it kl = Inr (it', kl') \<Longrightarrow>
     (\<forall>v \<in> set (entry_values ''i'' ps) \<union> set (entry_values ''l'' ps). Atoi v \<noteq> None)
     \<and> (if entry_values ''i'' ps = [] then it' = it else Atoi (last (entry_values ''i'' ps)) = Some it')
     \<and> (if entry_values ''l'' ps = [] then kl' = kl else Atoi (last (entry_values ''l'' ps)) = Some kl')"
proof (induction ps arbitrary: it kl)
  case Nil
  then show ?case by (simp add: entry_values_Nil)
next
  case (Cons p ps)
  show ?case
  proof (cases "length (Split p CHR ''='') = 2")
    case False
    with Cons show ?thesis by (simp add: entry_values_Cons)
  next
    case len: True
    show ?thesis
    proof (cases "Split p CHR ''='' ! 0 = ''i''")
      case True
      with len Cons.prems obtain v where
        v: "Atoi (Split p CHR ''='' ! 1) = Some v" and r: "parse_params ps v kl = Inr (it', kl')"
        by (cases "Atoi (Split p CHR ''='' ! 1)") auto
      from Cons.IH [OF r] v len True show ?thesis
        by (auto simp: entry_values_Cons split: if_splits)
    next
      case ni: False
      show ?thesis
      proof (cases "Split p CHR ''='' ! 0 = ''l''")
        case True
        with len ni Cons.prems obtain v where
          v: "Atoi (Split p CHR ''='' ! 1) = Some v" and r: "parse_params ps it v = Inr (it', kl')"
          by (cases "Atoi (Split p CHR ''='' ! 1)") auto
        from Cons.IH [OF r] v len True ni show ?thesis
          by (auto simp: entry_values_Cons split: if_splits)
      next
        case False
        with len ni Cons show ?thesis by (simp add: entry_values_Cons)
      qed
    qed
  qed
qed

lemma parse_params_total:
  "(\<forall>v \<in> set (entry_values ''i'' ps) \<union> set (entry_values ''l'' ps). Atoi v \<noteq> None) \<Longrightarrow>
     \<exists>it' kl'. parse_params ps it kl = Inr (it', kl')"
proof (cases "parse_params ps it kl")
  case (Inl e)
  assume "\<forall>v \<in> set (entry_values ''i'' ps) \<union> set (entry_values ''l'' ps). Atoi v \<noteq> None"
  with parse_params_error [OF Inl] show ?thesis by blast
next
  case (Inr r)
  then show ?thesis by (cases r) auto
qed

lemma Verify_wellformed:
  assumes "Split s CHR ''$'' = [f0, ''pbkdf2-sha256'', f2, f3, f4]"
    and "parse_params (Split f2 CHR '','') 0 0 = Inr (it, kl)"
    and "it \<noteq> 0" "kl \<noteq> 0"
    and "DecodeString f3 = Some salt" "DecodeString f4 = Some stored"
  shows "Verify Key password s =
           (case Key password salt it kl sha256_New of
              None \<Rightarrow> None
            | Some dk \<Rightarrow> Some (dk = stored, None))"
  using assms
  by (simp add: Verify_def ConstantTimeCompare_iff split: option.splits)

lemma Verify_error_cases:
  "Verify Key password s = Some (b, Some e) \<Longrightarrow> \<not> b \<and> e = InvalidOrCorruptedHash"
  by (auto simp: Verify_def Let_def InvalidOrCorruptedHash_def
      split: if_splits sum.splits option.splits prod.splits dest: parse_params_error)

lemma not_malformed_parse:
  assumes "\<not> malformed s"
  obtains f0 f2 f3 f4 it kl salt stored where
    "Split s CHR ''$'' = [f0, ''pbkdf2-sha256'', f2, f3, f4]"
    "parse_params (Split f2 CHR '','') 0 0 = Inr (it, kl)"
    "it \<noteq> 0" "kl \<noteq> 0"
    "DecodeString f3 = Some salt" "DecodeString f4 = Some stored"
proof -
  let ?parts = "Split s CHR ''$''"
  from assms have len: "length ?parts = 5" and tag: "?parts ! 1 = ''pbkdf2-sha256''"
    and vi: "values_of ''i'' (?parts ! 2) \<noteq> []" and vl: "values_of ''l'' (?parts ! 2) \<noteq> []"
    and num: "\<forall>v \<in> set (values_of ''i'' (?parts ! 2)) \<union> set (values_of ''l'' (?parts ! 2)). Atoi v \<noteq> None"
    and zi: "Atoi (last (values_of ''i'' (?parts ! 2))) \<noteq> Some 0"
    and zl: "Atoi (last (values_of ''l'' (?parts ! 2))) \<noteq> Some 0"
    and d3: "DecodeString (?parts ! 3) \<noteq> None" and d4: "DecodeString (?parts ! 4) \<noteq> None"
    by (simp_all add: malformed_def Let_def)
  from parse_params_total [of "Split (?parts ! 2) CHR '',''" 0 0] num
  obtain it kl where p: "parse_params (Split (?parts ! 2) CHR '','') 0 0 = Inr (it, kl)"
    by (auto simp: values_of_def)
  from parse_params_ok [OF p] vi vl zi zl have nz: "it \<noteq> 0" "kl \<noteq> 0"
    by (auto simp: values_of_def)
  from d3 d4 obtain salt stored where
    d: "DecodeString (?parts ! 3) = Some salt" "DecodeString (?parts ! 4) = Some stored" by auto
  have "?parts = [?parts ! 0, ''pbkdf2-sha256'', ?parts ! 2, ?parts ! 3, ?parts ! 4]"
    using Split5 [OF len] tag by simp
  with p nz d show thesis using that by blast
qed

lemma malformed_Verify:
  assumes "malformed s"
  shows "Verify Key password s = Some (False, Some InvalidOrCorruptedHash)"
proof -
  let ?parts = "Split s CHR ''$''"
  let ?err = "Some (False, Some (errors_New ''invalid or corrupted hash''))"
  show ?thesis
  proof (cases "length ?parts \<noteq> 5 \<or> ?parts ! 1 \<noteq> ''pbkdf2-sha256''")
    case True
    then show ?thesis by (auto simp: Verify_def Let_def InvalidOrCorruptedHash_def)
  next
    case False
    then have len: "length ?parts = 5" and tag: "?parts ! 1 = ''pbkdf2-sha256''" by auto
    show ?thesis
    proof (cases "parse_params (Split (?parts ! 2) CHR '','') 0 0")
      case (Inl e)
      with parse_params_error [OF Inl] len tag show ?thesis
        by (simp add: Verify_def Let_def InvalidOrCorruptedHash_def)
    next
      case (Inr r)
      obtain it kl where r: "r = (it, kl)" by (cases r)
      note ok = parse_params_ok [OF Inr [unfolded r]]
      show ?thesis
      proof (cases "it = 0 \<or> kl = 0")
        case True
        with Inr r len tag show ?thesis
          by (auto simp: Verify_def Let_def InvalidOrCorruptedHash_def)
      next
        case nz: False
        from ok nz have "values_of ''i'' (?parts ! 2) \<noteq> []" "values_of ''l'' (?parts ! 2) \<noteq> []"
          "Atoi (last (values_of ''i'' (?parts ! 2))) \<noteq> Some 0"
          "Atoi (last (values_of ''l'' (?parts ! 2))) \<noteq> Some 0"
          "\<forall>v \<in> set (values_of ''i'' (?parts ! 2)) \<union> set (values_of ''l'' (?parts ! 2)). Atoi v \<noteq> None"
          by (auto simp: values_of_def split: if_splits)
        with assms len tag have "DecodeString (?parts ! 3) = None \<or> DecodeString (?parts ! 4) = None"
          by (auto simp: malformed_def Let_def)
        with Inr r len tag nz show ?thesis
          by (auto simp: Verify_def Let_def InvalidOrCorruptedHash_def split: option.splits)
      qed
    qed
  qed
qed

lemma Verify_Sprintf_hash:
  assumes "i \<noteq> 0" "l \<noteq> 0"
  shows "Verify Key password (Sprintf_hash i l (EncodeToString salt) (EncodeToString stored)) =
           (case Key password salt i l sha256_New of
              None \<Rightarrow> None
            | Some dk \<Rightarrow> Some (dk = stored, None))"
proof -
  have a: "CHR ''$'' \<notin> set (EncodeToString salt)" "CHR ''$'' \<notin> set (EncodeToString stored)"
    using EncodeToString_alphabet encodeStd_no_sep by blast+
  have p: "parse_params (Split (field2 i l) CHR '','') 0 0 = Inr (i, l)"
    by (simp only: Split_field2 parse_params_field2)
  show ?thesis
    unfolding Verify_def Split_Sprintf_hash [OF a]
    using assms
    by (simp add: p DecodeString_def decode_encode
          ConstantTimeCompare_iff del: parse_params.simps split: option.splits)
qed

section \<open>The claims\<close>

subsection \<open>Round trip\<close>

text \<open>
  C1: for every password (the empty one too), every primitive and every parameter set
  whose hash family is \<^verbatim>\<open>nil\<close> (resolved to SHA-256) or SHA-256, if \<open>Params_Hash\<close>
  returns an encoded string and no error, then \<open>Verify\<close> with the same password and
  that string returns true and no error.
\<close>

theorem Hash_Verify_roundtrip:
  assumes "HashFunc p = None \<or> HashFunc p = Some sha256_New"
    and "Params_Hash Key alloc src p password = Some (s, None)"
  shows "Verify Key password s = Some (True, None)"
proof -
  let ?p = "applyDefaults p"
  from assms(2) obtain f h dk where
    h: "HashFunc ?p = Some h"
    and dk: "Key password (map f [0..<nat (sint (SaltLen ?p))]) (Iterations ?p) (KeyLen ?p) h = Some dk"
    and s: "s = Sprintf_hash (Iterations ?p) (KeyLen ?p)
                 (EncodeToString (map f [0..<nat (sint (SaltLen ?p))])) (EncodeToString dk)"
    by (rule Params_Hash_success)
  from assms(1) h have "h = sha256_New"
    by (auto simp: applyDefaults_fields)
  with dk show ?thesis
    unfolding s by (simp add: Verify_Sprintf_hash applyDefaults_nonzero)
qed

text \<open>The empty password and the all-zero parameter set, with the sample primitive.\<close>

theorem Hash_Verify_roundtrip_witness:
  "Params_Hash sample_Key sample_alloc (Bytes (\<lambda>i. of_nat (3 * i)))
     \<lparr>Iterations = 0, KeyLen = 0, SaltLen = 0, HashFunc = None\<rparr> []
     = Some (''$pbkdf2-sha256$i=120000,l=32$AAMGCQwPEhUYGx4hJCcqLQ$KCkqKywtLi8wMTIzNDU2Nzg5Ojs8PT4/QEFCQ0RFRkc'', None)
   \<and> Verify sample_Key []
       ''$pbkdf2-sha256$i=120000,l=32$AAMGCQwPEhUYGx4hJCcqLQ$KCkqKywtLi8wMTIzNDU2Nzg5Ojs8PT4/QEFCQ0RFRkc''
     = Some (True, None)"
proof -
  have h: "Params_Hash sample_Key sample_alloc (Bytes (\<lambda>i. of_nat (3 * i)))
     \<lparr>Iterations = 0, KeyLen = 0, SaltLen = 0, HashFunc = None\<rparr> []
     = Some (''$pbkdf2-sha256$i=120000,l=32$AAMGCQwPEhUYGx4hJCcqLQ$KCkqKywtLi8wMTIzNDU2Nzg5Ojs8PT4/QEFCQ0RFRkc'', None)"
    by code_simp
  have p: "HashFunc \<lparr>Iterations = 0, KeyLen = 0, SaltLen = 0, HashFunc = None\<rparr> = None
           \<or> HashFunc \<lparr>Iterations = 0, KeyLen = 0, SaltLen = 0, HashFunc = None\<rparr> = Some sha256_New"
    by simp
  from h Hash_Verify_roundtrip [OF p h] show ?thesis by (rule conjI)
qed

subsection \<open>The result of the comparison\<close>

text \<open>
  C2: for an encoded hash that passes every check of the parsing (five fields, the
  tag, \<^verbatim>\<open>i\<close> and \<^verbatim>\<open>l\<close> read and not zero, salt and key decoded) and a password for
  which the primitive returns a key, \<open>Verify\<close> returns no error and the truth value of
  "the recomputed key equals the stored key" as byte sequences; in particular it
  returns false and no error when the lengths differ. For such an encoded hash no
  password at all makes \<open>Verify\<close> return an error.
\<close>

theorem Verify_compares_keys:
  assumes "Split s CHR ''$'' = [f0, ''pbkdf2-sha256'', f2, f3, f4]"
    and "parse_params (Split f2 CHR '','') 0 0 = Inr (it, kl)"
    and "it \<noteq> 0" "kl \<noteq> 0"
    and "DecodeString f3 = Some salt" "DecodeString f4 = Some stored"
    and "Key password salt it kl sha256_New = Some dk"
  shows "Verify Key password s = Some (dk = stored, None)
         \<and> (length dk \<noteq> length stored \<longrightarrow> Verify Key password s = Some (False, None))
         \<and> Verify Key password' s \<noteq> Some (b, Some e)"
proof -
  note w = Verify_wellformed [OF assms(1-6)]
  have "Verify Key password s = Some (dk = stored, None)"
    using assms(7) by (simp add: w)
  moreover have "Verify Key password' s \<noteq> Some (b, Some e)"
    by (simp add: w split: option.splits)
  ultimately show ?thesis by auto
qed

text \<open>The right password, a wrong password, and a stored key of another length.\<close>

theorem Verify_compares_keys_witness:
  "Verify sample_Key [] ''$pbkdf2-sha256$i=1,l=3$AAAA$AQID'' = Some (True, None)
   \<and> Verify sample_Key [9] ''$pbkdf2-sha256$i=1,l=3$AAAA$AQID'' = Some (False, None)
   \<and> Verify sample_Key [] ''$pbkdf2-sha256$i=1,l=3$AAAA$AQIDBA'' = Some (False, None)"
proof -
  have s: "Split ''$pbkdf2-sha256$i=1,l=3$AAAA$AQID'' CHR ''$''
             = [[], ''pbkdf2-sha256'', ''i=1,l=3'', ''AAAA'', ''AQID'']"
    by code_simp
  have s': "Split ''$pbkdf2-sha256$i=1,l=3$AAAA$AQIDBA'' CHR ''$''
             = [[], ''pbkdf2-sha256'', ''i=1,l=3'', ''AAAA'', ''AQIDBA'']"
    by code_simp
  have p: "parse_params (Split ''i=1,l=3'' CHR '','') 0 0 = Inr (1, 3)" by code_simp
  have n: "(1 :: go_int) \<noteq> 0" "(3 :: go_int) \<noteq> 0" by simp_all
  have d: "DecodeString ''AAAA'' = Some [0, 0, 0]" "DecodeString ''AQID'' = Some [1, 2, 3]"
    "DecodeString ''AQIDBA'' = Some [1, 2, 3, 4]"
    by code_simp+
  have k: "sample_Key [] [0, 0, 0] 1 3 sha256_New = Some [1, 2, 3]"
    "sample_Key [9] [0, 0, 0] 1 3 sha256_New = Some [10, 11, 12]"
    by code_simp+
  from Verify_compares_keys [where Key = sample_Key and password = "[]", OF s p n d(1) d(2) k(1)]
  have 1: "Verify sample_Key [] ''$pbkdf2-sha256$i=1,l=3$AAAA$AQID'' = Some (True, None)"
    by simp
  from Verify_compares_keys [where Key = sample_Key and password = "[9]", OF s p n d(1) d(2) k(2)]
  have 2: "Verify sample_Key [9] ''$pbkdf2-sha256$i=1,l=3$AAAA$AQID'' = Some (False, None)"
    by simp
  from Verify_compares_keys [where Key = sample_Key and password = "[]", OF s' p n d(1) d(3) k(1)]
  have 3: "Verify sample_Key [] ''$pbkdf2-sha256$i=1,l=3$AAAA$AQIDBA'' = Some (False, None)"
    by simp
  from 1 2 3 show ?thesis by (intro conjI)
qed

subsection \<open>One error for every malformed encoding\<close>

text \<open>
  C3: on every malformed encoded hash (\<open>malformed\<close> lists the causes: field count,
  tag, missing, non-numeric or zero \<^verbatim>\<open>i\<close> or \<^verbatim>\<open>l\<close>, base64 of salt or key) \<open>Verify\<close>
  returns false with the one error InvalidOrCorruptedHash, whatever the cause; and
  whenever \<open>Verify\<close> returns an error at all, the input is malformed in this sense,
  the result is false and the error is that same one.
\<close>

theorem Verify_malformed_generic_error:
  "(malformed s \<longrightarrow> Verify Key password s = Some (False, Some InvalidOrCorruptedHash))
   \<and> (Verify Key password s = Some (b, Some e) \<longrightarrow>
        malformed s \<and> \<not> b \<and> e = InvalidOrCorruptedHash)"
proof (intro conjI impI)
  assume "malformed s"
  then show "Verify Key password s = Some (False, Some InvalidOrCorruptedHash)"
    by (rule malformed_Verify)
next
  assume v: "Verify Key password s = Some (b, Some e)"
  show "malformed s"
  proof (rule ccontr)
    assume "\<not> malformed s"
    then obtain f0 f2 f3 f4 it kl salt stored where
      "Split s CHR ''$'' = [f0, ''pbkdf2-sha256'', f2, f3, f4]"
      "parse_params (Split f2 CHR '','') 0 0 = Inr (it, kl)"
      "it \<noteq> 0" "kl \<noteq> 0"
      "DecodeString f3 = Some salt" "DecodeString f4 = Some stored"
      by (rule not_malformed_parse)
    from Verify_wellformed [OF this, of Key password] v show False
      by (simp split: option.splits)
  qed
  from Verify_error_cases [OF v] show "\<not> b" "e = InvalidOrCorruptedHash" by simp_all
qed

text \<open>The inputs of the repository's tests, and a zero, a missing value and a wrong tag.\<close>

theorem Verify_malformed_generic_error_witness:
  "malformed ''invalid''
   \<and> Verify sample_Key [112, 97, 115, 115] ''invalid'' = Some (False, Some InvalidOrCorruptedHash)
   \<and> malformed ''$pbkdf2-sha256$i=abc,l=32$dGVzdHNhbHQxMjM0NTY$dGVzdGhhc2gxMjM0NTY3ODkwMTIzNDU2Nzg5MDEy''
   \<and> Verify sample_Key [] ''$pbkdf2-sha256$i=abc,l=32$dGVzdHNhbHQxMjM0NTY$dGVzdGhhc2gxMjM0NTY3ODkwMTIzNDU2Nzg5MDEy''
       = Some (False, Some InvalidOrCorruptedHash)
   \<and> malformed ''$pbkdf2-sha256$i=120000,l=32$!!!invalid!!!$dGVzdGhhc2gxMjM0NTY3ODkwMTIzNDU2Nzg5MDEy''
   \<and> Verify sample_Key [] ''$pbkdf2-sha256$i=120000,l=32$!!!invalid!!!$dGVzdGhhc2gxMjM0NTY3ODkwMTIzNDU2Nzg5MDEy''
       = Some (False, Some InvalidOrCorruptedHash)
   \<and> malformed ''$pbkdf2-sha256$i=120000,l=0$AAAA$AAAA''
   \<and> Verify sample_Key [] ''$pbkdf2-sha256$i=120000,l=0$AAAA$AAAA'' = Some (False, Some InvalidOrCorruptedHash)
   \<and> malformed ''$pbkdf2-sha256$l=32$AAAA$AAAA''
   \<and> Verify sample_Key [] ''$pbkdf2-sha256$l=32$AAAA$AAAA'' = Some (False, Some InvalidOrCorruptedHash)
   \<and> malformed ''$pbkdf2-sha1$i=1,l=32$AAAA$AAAA''
   \<and> Verify sample_Key [] ''$pbkdf2-sha1$i=1,l=32$AAAA$AAAA'' = Some (False, Some InvalidOrCorruptedHash)"
proof -
  have m: "malformed ''invalid''"
    "malformed ''$pbkdf2-sha256$i=abc,l=32$dGVzdHNhbHQxMjM0NTY$dGVzdGhhc2gxMjM0NTY3ODkwMTIzNDU2Nzg5MDEy''"
    "malformed ''$pbkdf2-sha256$i=120000,l=32$!!!invalid!!!$dGVzdGhhc2gxMjM0NTY3ODkwMTIzNDU2Nzg5MDEy''"
    "malformed ''$pbkdf2-sha256$i=120000,l=0$AAAA$AAAA''"
    "malformed ''$pbkdf2-sha256$l=32$AAAA$AAAA''"
    "malformed ''$pbkdf2-sha1$i=1,l=32$AAAA$AAAA''"
    by code_simp+
  note t = Verify_malformed_generic_error [THEN conjunct1, rule_format]
  from m(1) t [OF m(1)] m(2) t [OF m(2)] m(3) t [OF m(3)] m(4) t [OF m(4)] m(5) t [OF m(5)]
    m(6) t [OF m(6)]
  show ?thesis by (intro conjI)
qed

subsection \<open>Field 2\<close>

text \<open>
  Against C4 as stated: a field 2 with the entry \<^verbatim>\<open>junk\<close>, which is not a
  \<^verbatim>\<open>key=value\<close> pair, is accepted; \<open>Verify\<close> returns true and no error.
\<close>

theorem Verify_field2_strict_counterexample:
  "Verify sample_Key [] ''$pbkdf2-sha256$i=1,l=3,junk$AAAA$AQID'' = Some (True, None)
   \<and> Verify sample_Key [] ''$pbkdf2-sha256$i=1,l=3,junk$AAAA$AQID''
       \<noteq> Some (False, Some InvalidOrCorruptedHash)"
proof -
  have "Verify sample_Key [] ''$pbkdf2-sha256$i=1,l=3,junk$AAAA$AQID'' = Some (True, None)"
    by code_simp
  then show ?thesis by simp
qed

text \<open>
  C4, amended: when the other fields are in order, \<open>Verify\<close> looks in field 2 only at
  the entries that \<^verbatim>\<open>=\<close> cuts into exactly the key \<^verbatim>\<open>i\<close> or \<^verbatim>\<open>l\<close> and a value, and
  passes over every other entry. It returns InvalidOrCorruptedHash when \<^verbatim>\<open>i\<close> or
  \<^verbatim>\<open>l\<close> has no such entry, when a value of \<^verbatim>\<open>i\<close> or \<^verbatim>\<open>l\<close> is not a number that
  \<open>Atoi\<close> reads, or when the last value of \<^verbatim>\<open>i\<close> or of \<^verbatim>\<open>l\<close> is zero. When every
  value of \<^verbatim>\<open>i\<close> and \<^verbatim>\<open>l\<close> is a number and the last value of each is positive,
  field 2 is accepted, whatever other entries it has, and \<open>Verify\<close> goes on to derive
  the key with these two values and to compare.
\<close>

theorem Verify_field2_lenient:
  assumes "Split s CHR ''$'' = [f0, ''pbkdf2-sha256'', f2, f3, f4]"
    and "DecodeString f3 = Some salt" "DecodeString f4 = Some stored"
  shows "(values_of ''i'' f2 = [] \<or> values_of ''l'' f2 = []
          \<or> (\<exists>v \<in> set (values_of ''i'' f2) \<union> set (values_of ''l'' f2). Atoi v = None)
          \<or> Atoi (last (values_of ''i'' f2)) = Some 0
          \<or> Atoi (last (values_of ''l'' f2)) = Some 0
          \<longrightarrow> Verify Key password s = Some (False, Some InvalidOrCorruptedHash))
         \<and> ((\<forall>v \<in> set (values_of ''i'' f2) \<union> set (values_of ''l'' f2). Atoi v \<noteq> None)
             \<and> values_of ''i'' f2 \<noteq> [] \<and> Atoi (last (values_of ''i'' f2)) = Some it \<and> 0 < sint it
             \<and> values_of ''l'' f2 \<noteq> [] \<and> Atoi (last (values_of ''l'' f2)) = Some kl \<and> 0 < sint kl
             \<longrightarrow> Verify Key password s =
                   (case Key password salt it kl sha256_New of
                      None \<Rightarrow> None
                    | Some dk \<Rightarrow> Some (dk = stored, None)))"
proof (intro conjI impI)
  assume "values_of ''i'' f2 = [] \<or> values_of ''l'' f2 = []
          \<or> (\<exists>v \<in> set (values_of ''i'' f2) \<union> set (values_of ''l'' f2). Atoi v = None)
          \<or> Atoi (last (values_of ''i'' f2)) = Some 0
          \<or> Atoi (last (values_of ''l'' f2)) = Some 0"
  then have "malformed s"
    unfolding malformed_def Let_def assms(1) by auto
  then show "Verify Key password s = Some (False, Some InvalidOrCorruptedHash)"
    by (rule malformed_Verify)
next
  assume a: "(\<forall>v \<in> set (values_of ''i'' f2) \<union> set (values_of ''l'' f2). Atoi v \<noteq> None)
             \<and> values_of ''i'' f2 \<noteq> [] \<and> Atoi (last (values_of ''i'' f2)) = Some it \<and> 0 < sint it
             \<and> values_of ''l'' f2 \<noteq> [] \<and> Atoi (last (values_of ''l'' f2)) = Some kl \<and> 0 < sint kl"
  then obtain it' kl' where p: "parse_params (Split f2 CHR '','') 0 0 = Inr (it', kl')"
    using parse_params_total [of "Split f2 CHR '',''" 0 0] by (auto simp: values_of_def)
  from parse_params_ok [OF p] a have eq: "it' = it" "kl' = kl"
    by (auto simp: values_of_def)
  from a have nz: "it \<noteq> 0" "kl \<noteq> 0" by auto
  show "Verify Key password s =
          (case Key password salt it kl sha256_New of
             None \<Rightarrow> None
           | Some dk \<Rightarrow> Some (dk = stored, None))"
    by (rule Verify_wellformed [OF assms(1) p [unfolded eq] nz assms(2,3)])
qed

text \<open>A field 2 with a foreign entry and positive values, and one whose \<^verbatim>\<open>l\<close> is zero.\<close>

theorem Verify_field2_lenient_witness:
  "Verify sample_Key [] ''$pbkdf2-sha256$i=1,l=3,junk$AAAA$AQID'' = Some (True, None)
   \<and> Verify sample_Key [] ''$pbkdf2-sha256$i=1,x=y,l=0$AAAA$AQID''
        = Some (False, Some InvalidOrCorruptedHash)"
proof -
  have s: "Split ''$pbkdf2-sha256$i=1,l=3,junk$AAAA$AQID'' CHR ''$''
             = [[], ''pbkdf2-sha256'', ''i=1,l=3,junk'', ''AAAA'', ''AQID'']"
    by code_simp
  have s': "Split ''$pbkdf2-sha256$i=1,x=y,l=0$AAAA$AQID'' CHR ''$''
             = [[], ''pbkdf2-sha256'', ''i=1,x=y,l=0'', ''AAAA'', ''AQID'']"
    by code_simp
  have d: "DecodeString ''AAAA'' = Some [0, 0, 0]" "DecodeString ''AQID'' = Some [1, 2, 3]"
    by code_simp+
  have a: "(\<forall>v \<in> set (values_of ''i'' ''i=1,l=3,junk'') \<union> set (values_of ''l'' ''i=1,l=3,junk''). Atoi v \<noteq> None)
           \<and> values_of ''i'' ''i=1,l=3,junk'' \<noteq> []
           \<and> Atoi (last (values_of ''i'' ''i=1,l=3,junk'')) = Some 1 \<and> 0 < sint (1 :: go_int)
           \<and> values_of ''l'' ''i=1,l=3,junk'' \<noteq> []
           \<and> Atoi (last (values_of ''l'' ''i=1,l=3,junk'')) = Some 3 \<and> 0 < sint (3 :: go_int)"
    by code_simp
  have k: "sample_Key [] [0, 0, 0] 1 3 sha256_New = Some [1, 2, 3]" by code_simp
  have z: "values_of ''i'' ''i=1,x=y,l=0'' = [] \<or> values_of ''l'' ''i=1,x=y,l=0'' = []
          \<or> (\<exists>v \<in> set (values_of ''i'' ''i=1,x=y,l=0'') \<union> set (values_of ''l'' ''i=1,x=y,l=0''). Atoi v = None)
          \<or> Atoi (last (values_of ''i'' ''i=1,x=y,l=0'')) = Some 0
          \<or> Atoi (last (values_of ''l'' ''i=1,x=y,l=0'')) = Some 0"
    by code_simp
  from Verify_field2_lenient [OF s d, THEN conjunct2, rule_format, OF a, of sample_Key "[]"] k
  have 1: "Verify sample_Key [] ''$pbkdf2-sha256$i=1,l=3,junk$AAAA$AQID'' = Some (True, None)"
    by simp
  from Verify_field2_lenient [OF s' d, THEN conjunct1, rule_format, OF z]
  have 2: "Verify sample_Key [] ''$pbkdf2-sha256$i=1,x=y,l=0$AAAA$AQID''
        = Some (False, Some InvalidOrCorruptedHash)" .
  from 1 2 show ?thesis by (rule conjI)
qed

subsection \<open>Defaults\<close>

text \<open>
  C5: \<open>applyDefaults\<close> is a function of the parameter set alone; it replaces a zero
  \<open>Iterations\<close> by 120000, a zero \<open>KeyLen\<close> by 32, a zero \<open>SaltLen\<close> by 16 and a
  \<^verbatim>\<open>nil\<close> \<open>HashFunc\<close> by SHA-256, and keeps every other value. The all-zero
  parameter set resolves to \<open>DefaultParams\<close>, and \<open>Hash\<close> is \<open>Params_Hash\<close> on it.
  A string that \<open>Params_Hash\<close> returns for the all-zero set has the field 2
  \<^verbatim>\<open>i=120000,l=32\<close> and a salt of 16 bytes; for the set with only
  \<open>Iterations = 1000\<close> it has the field 2 \<^verbatim>\<open>i=1000,l=32\<close> and a salt of 16 bytes; in
  both the key was derived with key length 32 and SHA-256.
\<close>

theorem applyDefaults_resolves:
  "Iterations (applyDefaults p) = (if Iterations p = 0 then 120000 else Iterations p)
   \<and> KeyLen (applyDefaults p) = (if KeyLen p = 0 then 32 else KeyLen p)
   \<and> SaltLen (applyDefaults p) = (if SaltLen p = 0 then 16 else SaltLen p)
   \<and> HashFunc (applyDefaults p) = (case HashFunc p of None \<Rightarrow> Some sha256_New | Some h \<Rightarrow> Some h)
   \<and> applyDefaults \<lparr>Iterations = 0, KeyLen = 0, SaltLen = 0, HashFunc = None\<rparr> = DefaultParams
   \<and> Hash Key alloc src password =
       Params_Hash Key alloc src \<lparr>Iterations = 0, KeyLen = 0, SaltLen = 0, HashFunc = None\<rparr> password
   \<and> (Params_Hash Key alloc src \<lparr>Iterations = 0, KeyLen = 0, SaltLen = 0, HashFunc = None\<rparr> password = Some (s, None) \<longrightarrow>
        (\<exists>salt dk. length salt = 16
           \<and> Key password salt 120000 32 sha256_New = Some dk
           \<and> Split s CHR ''$'' = [[], ''pbkdf2-sha256'', ''i=120000,l=32'', EncodeToString salt, EncodeToString dk]
           \<and> DecodeString (EncodeToString salt) = Some salt))
   \<and> (Params_Hash Key alloc src \<lparr>Iterations = 1000, KeyLen = 0, SaltLen = 0, HashFunc = None\<rparr> password = Some (s', None) \<longrightarrow>
        (\<exists>salt dk. length salt = 16
           \<and> Key password salt 1000 32 sha256_New = Some dk
           \<and> Split s' CHR ''$'' = [[], ''pbkdf2-sha256'', ''i=1000,l=32'', EncodeToString salt, EncodeToString dk]
           \<and> DecodeString (EncodeToString salt) = Some salt))"
proof -
  have 1: "Params_Hash Key alloc src \<lparr>Iterations = 0, KeyLen = 0, SaltLen = 0, HashFunc = None\<rparr> password = Some (s, None) \<longrightarrow>
        (\<exists>salt dk. length salt = 16
           \<and> Key password salt 120000 32 sha256_New = Some dk
           \<and> Split s CHR ''$'' = [[], ''pbkdf2-sha256'', ''i=120000,l=32'', EncodeToString salt, EncodeToString dk]
           \<and> DecodeString (EncodeToString salt) = Some salt)"
  proof
    assume "Params_Hash Key alloc src \<lparr>Iterations = 0, KeyLen = 0, SaltLen = 0, HashFunc = None\<rparr> password = Some (s, None)"
    then obtain salt dk h where
      "int (length salt) = sint (SaltLen (applyDefaults \<lparr>Iterations = 0, KeyLen = 0, SaltLen = 0, HashFunc = None\<rparr>))"
      "HashFunc (applyDefaults \<lparr>Iterations = 0, KeyLen = 0, SaltLen = 0, HashFunc = None\<rparr>) = Some h"
      "Key password salt (Iterations (applyDefaults \<lparr>Iterations = 0, KeyLen = 0, SaltLen = 0, HashFunc = None\<rparr>))
         (KeyLen (applyDefaults \<lparr>Iterations = 0, KeyLen = 0, SaltLen = 0, HashFunc = None\<rparr>)) h = Some dk"
      "Split s CHR ''$'' =
         [[], ''pbkdf2-sha256'',
          field2 (Iterations (applyDefaults \<lparr>Iterations = 0, KeyLen = 0, SaltLen = 0, HashFunc = None\<rparr>))
            (KeyLen (applyDefaults \<lparr>Iterations = 0, KeyLen = 0, SaltLen = 0, HashFunc = None\<rparr>)),
          EncodeToString salt, EncodeToString dk]"
      by (rule Hash_fields)
    then show "\<exists>salt dk. length salt = 16
           \<and> Key password salt 120000 32 sha256_New = Some dk
           \<and> Split s CHR ''$'' = [[], ''pbkdf2-sha256'', ''i=120000,l=32'', EncodeToString salt, EncodeToString dk]
           \<and> DecodeString (EncodeToString salt) = Some salt"
      by (intro exI [of _ salt] exI [of _ dk])
         (simp add: applyDefaults_fields field2_defaults DecodeString_def decode_encode)
  qed
  have 2: "Params_Hash Key alloc src \<lparr>Iterations = 1000, KeyLen = 0, SaltLen = 0, HashFunc = None\<rparr> password = Some (s', None) \<longrightarrow>
        (\<exists>salt dk. length salt = 16
           \<and> Key password salt 1000 32 sha256_New = Some dk
           \<and> Split s' CHR ''$'' = [[], ''pbkdf2-sha256'', ''i=1000,l=32'', EncodeToString salt, EncodeToString dk]
           \<and> DecodeString (EncodeToString salt) = Some salt)"
  proof
    assume "Params_Hash Key alloc src \<lparr>Iterations = 1000, KeyLen = 0, SaltLen = 0, HashFunc = None\<rparr> password = Some (s', None)"
    then obtain salt dk h where
      "int (length salt) = sint (SaltLen (applyDefaults \<lparr>Iterations = 1000, KeyLen = 0, SaltLen = 0, HashFunc = None\<rparr>))"
      "HashFunc (applyDefaults \<lparr>Iterations = 1000, KeyLen = 0, SaltLen = 0, HashFunc = None\<rparr>) = Some h"
      "Key password salt (Iterations (applyDefaults \<lparr>Iterations = 1000, KeyLen = 0, SaltLen = 0, HashFunc = None\<rparr>))
         (KeyLen (applyDefaults \<lparr>Iterations = 1000, KeyLen = 0, SaltLen = 0, HashFunc = None\<rparr>)) h = Some dk"
      "Split s' CHR ''$'' =
         [[], ''pbkdf2-sha256'',
          field2 (Iterations (applyDefaults \<lparr>Iterations = 1000, KeyLen = 0, SaltLen = 0, HashFunc = None\<rparr>))
            (KeyLen (applyDefaults \<lparr>Iterations = 1000, KeyLen = 0, SaltLen = 0, HashFunc = None\<rparr>)),
          EncodeToString salt, EncodeToString dk]"
      by (rule Hash_fields)
    then show "\<exists>salt dk. length salt = 16
           \<and> Key password salt 1000 32 sha256_New = Some dk
           \<and> Split s' CHR ''$'' = [[], ''pbkdf2-sha256'', ''i=1000,l=32'', EncodeToString salt, EncodeToString dk]
           \<and> DecodeString (EncodeToString salt) = Some salt"
      by (intro exI [of _ salt] exI [of _ dk])
         (simp add: applyDefaults_fields field2_defaults DecodeString_def decode_encode)
  qed
  have 3: "applyDefaults \<lparr>Iterations = 0, KeyLen = 0, SaltLen = 0, HashFunc = None\<rparr> = DefaultParams"
    by (simp add: applyDefaults_def DefaultParams_def)
  have 4: "Hash Key alloc src password =
       Params_Hash Key alloc src \<lparr>Iterations = 0, KeyLen = 0, SaltLen = 0, HashFunc = None\<rparr> password"
    by (simp add: Hash_def Params_Hash_def applyDefaults_def DefaultParams_def)
  show ?thesis by (intro conjI applyDefaults_fields 1 2 3 4)
qed

theorem applyDefaults_resolves_witness:
  "(\<exists>salt dk. length salt = 16
       \<and> sample_Key [] salt 120000 32 sha256_New = Some dk
       \<and> Split ''$pbkdf2-sha256$i=120000,l=32$AAMGCQwPEhUYGx4hJCcqLQ$KCkqKywtLi8wMTIzNDU2Nzg5Ojs8PT4/QEFCQ0RFRkc'' CHR ''$''
           = [[], ''pbkdf2-sha256'', ''i=120000,l=32'', EncodeToString salt, EncodeToString dk]
       \<and> DecodeString (EncodeToString salt) = Some salt)
   \<and> (\<exists>salt dk. length salt = 16
       \<and> sample_Key [] salt 1000 32 sha256_New = Some dk
       \<and> Split ''$pbkdf2-sha256$i=1000,l=32$AAMGCQwPEhUYGx4hJCcqLQ$UFFSU1RVVldYWVpbXF1eX2BhYmNkZWZnaGlqa2xtbm8'' CHR ''$''
           = [[], ''pbkdf2-sha256'', ''i=1000,l=32'', EncodeToString salt, EncodeToString dk]
       \<and> DecodeString (EncodeToString salt) = Some salt)"
proof -
  have h0: "Params_Hash sample_Key sample_alloc (Bytes (\<lambda>i. of_nat (3 * i)))
     \<lparr>Iterations = 0, KeyLen = 0, SaltLen = 0, HashFunc = None\<rparr> []
     = Some (''$pbkdf2-sha256$i=120000,l=32$AAMGCQwPEhUYGx4hJCcqLQ$KCkqKywtLi8wMTIzNDU2Nzg5Ojs8PT4/QEFCQ0RFRkc'', None)"
    by code_simp
  have h1: "Params_Hash sample_Key sample_alloc (Bytes (\<lambda>i. of_nat (3 * i)))
     \<lparr>Iterations = 1000, KeyLen = 0, SaltLen = 0, HashFunc = None\<rparr> []
     = Some (''$pbkdf2-sha256$i=1000,l=32$AAMGCQwPEhUYGx4hJCcqLQ$UFFSU1RVVldYWVpbXF1eX2BhYmNkZWZnaGlqa2xtbm8'', None)"
    by code_simp
  note t = applyDefaults_resolves [where Key = sample_Key and alloc = sample_alloc
      and src = "Bytes (\<lambda>i. of_nat (3 * i))" and password = "[]"]
  from t [THEN conjunct2, THEN conjunct2, THEN conjunct2, THEN conjunct2, THEN conjunct2,
      THEN conjunct2, THEN conjunct1, rule_format, OF h0]
    t [THEN conjunct2, THEN conjunct2, THEN conjunct2, THEN conjunct2, THEN conjunct2,
      THEN conjunct2, THEN conjunct2, rule_format, OF h1]
  show ?thesis by (rule conjI)
qed

subsection \<open>The salt generator\<close>



subsection \<open>The wire format\<close>

text \<open>
  C7: every string \<open>s\<close> that \<open>Params_Hash\<close> returns without error is
  \<^verbatim>\<open>$pbkdf2-sha256$i=\<close>, the resolved iteration count in decimal, \<^verbatim>\<open>,l=\<close>, the
  resolved key length in decimal, \<^verbatim>\<open>$\<close>, the base64 of the salt, \<^verbatim>\<open>$\<close>, the base64
  of the derived key. Cut at \<^verbatim>\<open>$\<close> it has exactly five fields, the first empty.
  The salt has the resolved salt length, the key is what the primitive returned for
  the resolved parameters, both base64 fields use only the 64 characters of the
  standard alphabet, have no \<^verbatim>\<open>=\<close>, and decode to the salt and the key.
\<close>

theorem Hash_wire_format:
  assumes "Params_Hash Key alloc src p password = Some (s, None)"
  shows "\<exists>salt dk h.
           s = ''$pbkdf2-sha256$i='' @ Sprintf_d (Iterations (applyDefaults p))
                 @ '',l='' @ Sprintf_d (KeyLen (applyDefaults p))
                 @ ''$'' @ EncodeToString salt @ ''$'' @ EncodeToString dk
         \<and> Split s CHR ''$'' =
             [[], ''pbkdf2-sha256'',
              ''i='' @ Sprintf_d (Iterations (applyDefaults p)) @ '',l='' @ Sprintf_d (KeyLen (applyDefaults p)),
              EncodeToString salt, EncodeToString dk]
         \<and> int (length salt) = sint (SaltLen (applyDefaults p))
         \<and> HashFunc (applyDefaults p) = Some h
         \<and> Key password salt (Iterations (applyDefaults p)) (KeyLen (applyDefaults p)) h = Some dk
         \<and> set (EncodeToString salt) \<subseteq> set encodeStd \<and> set (EncodeToString dk) \<subseteq> set encodeStd
         \<and> CHR ''='' \<notin> set (EncodeToString salt) \<and> CHR ''='' \<notin> set (EncodeToString dk)
         \<and> DecodeString (EncodeToString salt) = Some salt
         \<and> DecodeString (EncodeToString dk) = Some dk"
proof -
  from assms obtain salt dk h where
    f: "int (length salt) = sint (SaltLen (applyDefaults p))"
    "HashFunc (applyDefaults p) = Some h"
    "Key password salt (Iterations (applyDefaults p)) (KeyLen (applyDefaults p)) h = Some dk"
    "s = Sprintf_hash (Iterations (applyDefaults p)) (KeyLen (applyDefaults p))
           (EncodeToString salt) (EncodeToString dk)"
    "Split s CHR ''$'' =
       [[], ''pbkdf2-sha256'', field2 (Iterations (applyDefaults p)) (KeyLen (applyDefaults p)),
        EncodeToString salt, EncodeToString dk]"
    by (rule Hash_fields)
  have e: "CHR ''='' \<notin> set (EncodeToString salt)" "CHR ''='' \<notin> set (EncodeToString dk)"
    using EncodeToString_alphabet encodeStd_no_sep by blast+
  from f(4) have "s = ''$pbkdf2-sha256$i='' @ Sprintf_d (Iterations (applyDefaults p))
                 @ '',l='' @ Sprintf_d (KeyLen (applyDefaults p))
                 @ ''$'' @ EncodeToString salt @ ''$'' @ EncodeToString dk"
    by (simp add: Sprintf_hash_def)
  with f(1,2,3,5) e show ?thesis
    by (intro exI [of _ salt] exI [of _ dk] exI [of _ h])
       (simp add: field2_def EncodeToString_alphabet DecodeString_def decode_encode)
qed

theorem Hash_wire_format_witness:
  "Params_Hash sample_Key sample_alloc (Bytes (\<lambda>i. of_nat (3 * i)))
     \<lparr>Iterations = 1000, KeyLen = 4, SaltLen = 2, HashFunc = None\<rparr> [120, 121]
     = Some (''$pbkdf2-sha256$i=1000,l=4$AAM$3N3e3w'', None)
   \<and> (\<exists>salt dk h.
         ''$pbkdf2-sha256$i=1000,l=4$AAM$3N3e3w'' =
            ''$pbkdf2-sha256$i='' @ Sprintf_d 1000 @ '',l='' @ Sprintf_d 4
              @ ''$'' @ EncodeToString salt @ ''$'' @ EncodeToString dk
       \<and> Split ''$pbkdf2-sha256$i=1000,l=4$AAM$3N3e3w'' CHR ''$'' =
            [[], ''pbkdf2-sha256'', ''i='' @ Sprintf_d 1000 @ '',l='' @ Sprintf_d 4,
             EncodeToString salt, EncodeToString dk]
       \<and> int (length salt) = sint (2 :: go_int)
       \<and> Some sha256_New = Some h
       \<and> sample_Key [120, 121] salt 1000 4 h = Some dk
       \<and> set (EncodeToString salt) \<subseteq> set encodeStd \<and> set (EncodeToString dk) \<subseteq> set encodeStd
       \<and> CHR ''='' \<notin> set (EncodeToString salt) \<and> CHR ''='' \<notin> set (EncodeToString dk)
       \<and> DecodeString (EncodeToString salt) = Some salt
       \<and> DecodeString (EncodeToString dk) = Some dk)"
proof -
  have h: "Params_Hash sample_Key sample_alloc (Bytes (\<lambda>i. of_nat (3 * i)))
     \<lparr>Iterations = 1000, KeyLen = 4, SaltLen = 2, HashFunc = None\<rparr> [120, 121]
     = Some (''$pbkdf2-sha256$i=1000,l=4$AAM$3N3e3w'', None)"
    by code_simp
  have a: "Iterations (applyDefaults \<lparr>Iterations = 1000, KeyLen = 4, SaltLen = 2, HashFunc = None\<rparr>) = 1000"
    "KeyLen (applyDefaults \<lparr>Iterations = 1000, KeyLen = 4, SaltLen = 2, HashFunc = None\<rparr>) = 4"
    "SaltLen (applyDefaults \<lparr>Iterations = 1000, KeyLen = 4, SaltLen = 2, HashFunc = None\<rparr>) = 2"
    "HashFunc (applyDefaults \<lparr>Iterations = 1000, KeyLen = 4, SaltLen = 2, HashFunc = None\<rparr>) = Some sha256_New"
    by (simp_all add: applyDefaults_def DefaultParams_def)
  from h Hash_wire_format [OF h, unfolded a] show ?thesis by (rule conjI)
qed

subsection \<open>The hash family of Verify\<close>

text \<open>
  C8: for an encoded hash that passes every check of the parsing, the result of
  \<open>Verify\<close> is determined by one call of the primitive, with the candidate password,
  the decoded salt, the parsed iteration count, the parsed key length and
  \<open>sha256_New\<close>, followed by \<open>ConstantTimeCompare\<close> with the decoded key. This
  holds also for a string that \<open>Params_Hash\<close> produced under any other hash family:
  \<open>Verify\<close> derives with \<open>sha256_New\<close> and compares with the key that was derived
  with the configured family.
\<close>

theorem Verify_recomputes_with_sha256:
  "(Split s CHR ''$'' = [f0, ''pbkdf2-sha256'', f2, f3, f4]
      \<and> parse_params (Split f2 CHR '','') 0 0 = Inr (it, kl) \<and> it \<noteq> 0 \<and> kl \<noteq> 0
      \<and> DecodeString f3 = Some salt \<and> DecodeString f4 = Some stored
    \<longrightarrow> Verify Key password s =
          (case Key password salt it kl sha256_New of
             None \<Rightarrow> None
           | Some dk \<Rightarrow> Some (ConstantTimeCompare dk stored = 1, None)))
   \<and> (Params_Hash Key alloc (Bytes f) p password0 = Some (s', None)
    \<longrightarrow> Verify Key password s' =
          (case Key password (map f [0..<nat (sint (SaltLen (applyDefaults p)))])
                  (Iterations (applyDefaults p)) (KeyLen (applyDefaults p)) sha256_New of
             None \<Rightarrow> None
           | Some dk \<Rightarrow>
               Some (Some dk = Key password0 (map f [0..<nat (sint (SaltLen (applyDefaults p)))])
                                 (Iterations (applyDefaults p)) (KeyLen (applyDefaults p))
                                 (case HashFunc p of None \<Rightarrow> sha256_New | Some h \<Rightarrow> h), None)))"
proof (intro conjI impI)
  assume a: "Split s CHR ''$'' = [f0, ''pbkdf2-sha256'', f2, f3, f4]
      \<and> parse_params (Split f2 CHR '','') 0 0 = Inr (it, kl) \<and> it \<noteq> 0 \<and> kl \<noteq> 0
      \<and> DecodeString f3 = Some salt \<and> DecodeString f4 = Some stored"
  then have "Verify Key password s =
          (case Key password salt it kl sha256_New of
             None \<Rightarrow> None
           | Some dk \<Rightarrow> Some (dk = stored, None))"
    using Verify_wellformed [of s f0 f2 f3 f4 it kl salt stored Key password] by simp
  then show "Verify Key password s =
          (case Key password salt it kl sha256_New of
             None \<Rightarrow> None
           | Some dk \<Rightarrow> Some (ConstantTimeCompare dk stored = 1, None))"
    by (simp add: ConstantTimeCompare_iff split: option.splits)
next
  let ?p = "applyDefaults p"
  assume "Params_Hash Key alloc (Bytes f) p password0 = Some (s', None)"
  then obtain g h dk0 where
    g: "Bytes f = Bytes g"
    and h: "HashFunc ?p = Some h"
    and dk: "Key password0 (map g [0..<nat (sint (SaltLen ?p))]) (Iterations ?p) (KeyLen ?p) h = Some dk0"
    and s: "s' = Sprintf_hash (Iterations ?p) (KeyLen ?p)
                 (EncodeToString (map g [0..<nat (sint (SaltLen ?p))])) (EncodeToString dk0)"
    by (rule Params_Hash_success)
  from g have g: "g = f" by simp
  from h have h': "(case HashFunc p of None \<Rightarrow> sha256_New | Some h \<Rightarrow> h) = h"
    by (simp add: applyDefaults_fields split: option.splits)
  show "Verify Key password s' =
          (case Key password (map f [0..<nat (sint (SaltLen ?p))]) (Iterations ?p) (KeyLen ?p) sha256_New of
             None \<Rightarrow> None
           | Some dk \<Rightarrow>
               Some (Some dk = Key password0 (map f [0..<nat (sint (SaltLen ?p))])
                                 (Iterations ?p) (KeyLen ?p)
                                 (case HashFunc p of None \<Rightarrow> sha256_New | Some h \<Rightarrow> h), None))"
    unfolding h' s using dk
    by (simp add: Verify_Sprintf_hash applyDefaults_nonzero g split: option.splits)
qed

text \<open>A hand-written hash, and a hash made under another family, which the right
  password then fails to verify with the sample primitive.\<close>

theorem Verify_recomputes_with_sha256_witness:
  "Verify sample_Key [] ''$pbkdf2-sha256$i=1,l=3$AAAA$AQID'' =
     (case sample_Key [] [0, 0, 0] 1 3 sha256_New of
        None \<Rightarrow> None
      | Some dk \<Rightarrow> Some (ConstantTimeCompare dk [1, 2, 3] = 1, None))
   \<and> Params_Hash sample_Key sample_alloc (Bytes (\<lambda>i. of_nat (3 * i)))
        \<lparr>Iterations = 1000, KeyLen = 4, SaltLen = 2, HashFunc = Some (other_New 5)\<rparr> [120, 121]
       = Some (''$pbkdf2-sha256$i=1000,l=4$AAM$4uPk5Q'', None)
   \<and> Verify sample_Key [120, 121] ''$pbkdf2-sha256$i=1000,l=4$AAM$4uPk5Q'' =
       (case sample_Key [120, 121] (map (\<lambda>i. of_nat (3 * i)) [0..<nat (sint (2 :: go_int))])
               1000 4 sha256_New of
          None \<Rightarrow> None
        | Some dk \<Rightarrow>
            Some (Some dk = sample_Key [120, 121] (map (\<lambda>i. of_nat (3 * i)) [0..<nat (sint (2 :: go_int))])
                              1000 4 (other_New 5), None))
   \<and> Verify sample_Key [120, 121] ''$pbkdf2-sha256$i=1000,l=4$AAM$4uPk5Q'' = Some (False, None)"
proof -
  have s: "Split ''$pbkdf2-sha256$i=1,l=3$AAAA$AQID'' CHR ''$''
             = [[], ''pbkdf2-sha256'', ''i=1,l=3'', ''AAAA'', ''AQID'']
           \<and> parse_params (Split ''i=1,l=3'' CHR '','') 0 0 = Inr (1, 3) \<and> (1 :: go_int) \<noteq> 0 \<and> (3 :: go_int) \<noteq> 0
           \<and> DecodeString ''AAAA'' = Some [0, 0, 0] \<and> DecodeString ''AQID'' = Some [1, 2, 3]"
    by code_simp
  have h: "Params_Hash sample_Key sample_alloc (Bytes (\<lambda>i. of_nat (3 * i)))
        \<lparr>Iterations = 1000, KeyLen = 4, SaltLen = 2, HashFunc = Some (other_New 5)\<rparr> [120, 121]
       = Some (''$pbkdf2-sha256$i=1000,l=4$AAM$4uPk5Q'', None)"
    by code_simp
  have a: "Iterations (applyDefaults \<lparr>Iterations = 1000, KeyLen = 4, SaltLen = 2, HashFunc = Some (other_New 5)\<rparr>) = 1000"
    "KeyLen (applyDefaults \<lparr>Iterations = 1000, KeyLen = 4, SaltLen = 2, HashFunc = Some (other_New 5)\<rparr>) = 4"
    "SaltLen (applyDefaults \<lparr>Iterations = 1000, KeyLen = 4, SaltLen = 2, HashFunc = Some (other_New 5)\<rparr>) = 2"
    by (simp_all add: applyDefaults_def DefaultParams_def)
  have v: "Verify sample_Key [120, 121] ''$pbkdf2-sha256$i=1000,l=4$AAM$4uPk5Q'' = Some (False, None)"
    by code_simp
  note t = Verify_recomputes_with_sha256 [where Key = sample_Key]
  from t [THEN conjunct1, rule_format, OF s, of "[]"]
    h t [THEN conjunct2, rule_format, OF h, of "[120, 121]", unfolded a, simplified Params.simps option.case] v
  show ?thesis by (intro conjI)
qed

subsection \<open>Negative parameters\<close>

text \<open>
  C10: only a zero is replaced by a default. A negative \<open>SaltLen\<close> is kept, goes to
  \<open>GenerateSalt\<close>, and \<open>Params_Hash\<close> returns the empty string with the
  InvalidArgument error. A negative \<open>Iterations\<close> or \<open>KeyLen\<close> is kept as well, and
  (when the salt length is not negative, \<^verbatim>\<open>make\<close> can allocate the salt and the
  random source delivers, so that \<open>GenerateSalt\<close> returns a salt) the primitive is
  called with the resolved values, so with the negative ones.
\<close>

theorem negative_params_not_defaulted:
  "(sint (SaltLen p) < 0 \<longrightarrow>
      SaltLen (applyDefaults p) = SaltLen p
      \<and> GenerateSalt alloc src (SaltLen (applyDefaults p)) = Some ([], Some InvalidArgument)
      \<and> Params_Hash Key alloc src p password = Some ('''', Some InvalidArgument))
   \<and> (sint (Iterations p) < 0 \<longrightarrow> Iterations (applyDefaults p) = Iterations p)
   \<and> (sint (KeyLen p) < 0 \<longrightarrow> KeyLen (applyDefaults p) = KeyLen p)
   \<and> (0 \<le> sint (SaltLen p) \<and> alloc (nat (sint (SaltLen (applyDefaults p)))) \<longrightarrow>
        GenerateSalt alloc (Bytes f) (SaltLen (applyDefaults p))
          = Some (map f [0..<nat (sint (SaltLen (applyDefaults p)))], None)
        \<and> Params_Hash Key alloc (Bytes f) p password =
          (case Key password (map f [0..<nat (sint (SaltLen (applyDefaults p)))])
                  (Iterations (applyDefaults p)) (KeyLen (applyDefaults p))
                  (case HashFunc p of None \<Rightarrow> sha256_New | Some h \<Rightarrow> h) of
             None \<Rightarrow> None
           | Some dk \<Rightarrow>
               Some (Sprintf_hash (Iterations (applyDefaults p)) (KeyLen (applyDefaults p))
                       (EncodeToString (map f [0..<nat (sint (SaltLen (applyDefaults p)))]))
                       (EncodeToString dk), None)))"
proof (intro conjI impI)
  assume n: "sint (SaltLen p) < 0"
  then have nz: "SaltLen p \<noteq> 0" by auto
  then show 1: "SaltLen (applyDefaults p) = SaltLen p" by (simp add: applyDefaults_fields)
  from n show 2: "GenerateSalt alloc src (SaltLen (applyDefaults p)) = Some ([], Some InvalidArgument)"
    unfolding 1 by (simp add: GenerateSalt_def InvalidArgument_def word_sle_eq)
  show "Params_Hash Key alloc src p password = Some ('''', Some InvalidArgument)"
    by (simp add: Params_Hash_def Let_def 2)
next
  assume "sint (Iterations p) < 0"
  then have "Iterations p \<noteq> 0" by auto
  then show "Iterations (applyDefaults p) = Iterations p" by (simp add: applyDefaults_fields)
next
  assume "sint (KeyLen p) < 0"
  then have "KeyLen p \<noteq> 0" by auto
  then show "KeyLen (applyDefaults p) = KeyLen p" by (simp add: applyDefaults_fields)
next
  let ?p = "applyDefaults p"
  assume a: "0 \<le> sint (SaltLen p) \<and> alloc (nat (sint (SaltLen ?p)))"
  then have pos: "0 < sint (SaltLen ?p)"
    by (cases "SaltLen p = 0") (auto simp: applyDefaults_fields order_less_le signed_eq_0_iff)
  with a show g: "GenerateSalt alloc (Bytes f) (SaltLen ?p) = Some (map f [0..<nat (sint (SaltLen ?p))], None)"
    by (simp add: GenerateSalt_def word_sle_eq Let_def)
  show "Params_Hash Key alloc (Bytes f) p password =
          (case Key password (map f [0..<nat (sint (SaltLen ?p))]) (Iterations ?p) (KeyLen ?p)
                  (case HashFunc p of None \<Rightarrow> sha256_New | Some h \<Rightarrow> h) of
             None \<Rightarrow> None
           | Some dk \<Rightarrow>
               Some (Sprintf_hash (Iterations ?p) (KeyLen ?p)
                       (EncodeToString (map f [0..<nat (sint (SaltLen ?p))])) (EncodeToString dk), None))"
    by (simp add: Params_Hash_def Let_def g applyDefaults_fields(4) split: option.splits)
qed

theorem negative_params_not_defaulted_witness:
  "Params_Hash sample_Key sample_alloc (Bytes (\<lambda>i. of_nat (3 * i)))
     \<lparr>Iterations = 7, KeyLen = 4, SaltLen = - 1, HashFunc = None\<rparr> [] = Some ('''', Some InvalidArgument)
   \<and> Iterations (applyDefaults \<lparr>Iterations = - 5, KeyLen = - 1, SaltLen = 2, HashFunc = None\<rparr>) = - 5
   \<and> KeyLen (applyDefaults \<lparr>Iterations = - 5, KeyLen = - 1, SaltLen = 2, HashFunc = None\<rparr>) = - 1
   \<and> Params_Hash sample_Key sample_alloc (Bytes (\<lambda>i. of_nat (3 * i)))
        \<lparr>Iterations = - 5, KeyLen = 4, SaltLen = 2, HashFunc = None\<rparr> []
       = Some (''$pbkdf2-sha256$i=-5,l=4$AAM$/v8AAQ'', None)"
proof -
  let ?p1 = "\<lparr>Iterations = 7, KeyLen = 4, SaltLen = - 1, HashFunc = None\<rparr>"
  let ?p2 = "\<lparr>Iterations = - 5, KeyLen = - 1, SaltLen = 2, HashFunc = None\<rparr>"
  let ?p3 = "\<lparr>Iterations = - 5, KeyLen = 4, SaltLen = 2, HashFunc = None\<rparr>"
  have n1: "sint (SaltLen ?p1) < 0" by simp
  have n2: "sint (Iterations ?p2) < 0" "sint (KeyLen ?p2) < 0" by simp_all
  have n3: "0 \<le> sint (SaltLen ?p3) \<and> sample_alloc (nat (sint (SaltLen (applyDefaults ?p3))))"
    by (simp add: sample_alloc_def applyDefaults_fields)
  have e: "(case sample_Key [] (map (\<lambda>i. of_nat (3 * i)) [0..<nat (sint (SaltLen (applyDefaults ?p3)))])
                  (Iterations (applyDefaults ?p3)) (KeyLen (applyDefaults ?p3))
                  (case HashFunc ?p3 of None \<Rightarrow> sha256_New | Some h \<Rightarrow> h) of
             None \<Rightarrow> None
           | Some dk \<Rightarrow>
               Some (Sprintf_hash (Iterations (applyDefaults ?p3)) (KeyLen (applyDefaults ?p3))
                       (EncodeToString (map (\<lambda>i. of_nat (3 * i)) [0..<nat (sint (SaltLen (applyDefaults ?p3)))]))
                       (EncodeToString dk), None))
           = Some (''$pbkdf2-sha256$i=-5,l=4$AAM$/v8AAQ'', None :: error option)"
    by code_simp
  note t1 = negative_params_not_defaulted [where p = ?p1 and alloc = sample_alloc
      and src = "Bytes (\<lambda>i. of_nat (3 * i))" and Key = sample_Key and password = "[]"]
  note t2 = negative_params_not_defaulted [where p = ?p2]
  note t3 = negative_params_not_defaulted [where p = ?p3 and alloc = sample_alloc
      and Key = sample_Key and password = "[]" and f = "\<lambda>i. of_nat (3 * i)"]
  from t1 [THEN conjunct1, rule_format, OF n1, THEN conjunct2, THEN conjunct2]
    t2 [THEN conjunct2, THEN conjunct1, rule_format, OF n2(1)]
    t2 [THEN conjunct2, THEN conjunct2, THEN conjunct1, rule_format, OF n2(2)]
    t3 [THEN conjunct2, THEN conjunct2, THEN conjunct2, rule_format, OF n3, THEN conjunct2,
      unfolded e]
  show ?thesis by (simp only: Params.simps)
qed

end
